theory Spec2Isabelle
  imports Main "HOL-Library.AList" "HOL-Library.Sublist"
begin

section \<open>Data model (types.ts)\<close>

text \<open>
  A toast identifier is \<^verbatim>\<open>string | number\<close>. The two kinds never compare equal under
  \<^verbatim>\<open>===\<close> or as keys of a \<^verbatim>\<open>Map\<close>, so they are two constructors. Numbers used as
  identifiers are taken to be integers.
\<close>

datatype tid = SId string | NId int

datatype ToastType = Default | Success | Error | Warning | Info | Loading

text \<open>
  \<^verbatim>\<open>string | ReactNode\<close>: plain text or an opaque rendered node (a handle). A value that
  may be \<^verbatim>\<open>undefined\<close> (or \<^verbatim>\<open>null\<close>) is an \<open>option\<close>, \<open>None\<close> being the nullish value.
\<close>

datatype content = Text string | Node nat

text \<open>A duration in milliseconds, or \<^verbatim>\<open>Number.POSITIVE_INFINITY\<close>.\<close>

datatype duration_ms = Ms int | Infinity

text \<open>User callbacks are opaque: a callback is a handle, and calling it is recorded.\<close>

type_synonym callback = nat

text \<open>
  \<^verbatim>\<open>ToastT\<close>, with the fields the registry and the selector read or write. The purely
  presentational optional fields (icon, action, cancel, styles, animation, accessibility,
  dismissed) are carried through the same spreads and are left out.
\<close>

record ToastT =
  id_t :: tid
  type_t :: ToastType
  title :: "content option"
  description :: "content option"
  duration :: "duration_ms option"
  dismissible :: "bool option"
  onDismiss :: "callback option"
  onAutoClose :: "callback option"
  important :: "bool option"
  toasterId :: "string option"
  createdAt :: int

text \<open>\<^verbatim>\<open>ExternalToast\<close>: what a caller passes to \<^verbatim>\<open>create\<close>. Every field is optional, so the
  absent \<^verbatim>\<open>options\<close> argument is the record with every field \<open>None\<close>.\<close>

record ExternalToast =
  o_id :: "tid option"
  o_description :: "content option"
  o_duration :: "duration_ms option"
  o_dismissible :: "bool option"
  o_onDismiss :: "callback option"
  o_onAutoClose :: "callback option"
  o_important :: "bool option"
  o_toasterId :: "string option"

definition no_options :: ExternalToast where
  "no_options = \<lparr>o_id = None, o_description = None, o_duration = None, o_dismissible = None,
     o_onDismiss = None, o_onAutoClose = None, o_important = None, o_toasterId = None\<rparr>"

text \<open>
  \<^verbatim>\<open>UpdateToastOptions\<close>. An object spread distinguishes a property that is absent
  (\<open>None\<close>: the spread leaves the target's value) from one that is present with the value
  \<^verbatim>\<open>undefined\<close> (\<open>Some None\<close>: the spread overwrites with \<^verbatim>\<open>undefined\<close>). The TypeScript
  type omits \<^verbatim>\<open>id\<close> and \<^verbatim>\<open>createdAt\<close>, but an object passed at run time can carry them,
  and \<^verbatim>\<open>update\<close> guards against that; \<open>u_id\<close> and \<open>u_createdAt\<close> are those stray
  properties.
\<close>

record UpdateToastOptions =
  u_id :: "tid option"
  u_createdAt :: "int option"
  u_type :: "ToastType option option"
  u_title :: "content option option"
  u_description :: "content option option"
  u_duration :: "duration_ms option option"
  u_dismissible :: "bool option option"
  u_onDismiss :: "callback option option"
  u_onAutoClose :: "callback option option"
  u_important :: "bool option option"
  u_toasterId :: "string option option"

definition no_update :: UpdateToastOptions where
  "no_update = \<lparr>u_id = None, u_createdAt = None, u_type = None, u_title = None,
     u_description = None, u_duration = None, u_dismissible = None, u_onDismiss = None,
     u_onAutoClose = None, u_important = None, u_toasterId = None\<rparr>"

section \<open>Constants (constants.ts)\<close>

definition DISMISSED_CACHE_MAX_SIZE :: nat where
  "DISMISSED_CACHE_MAX_SIZE = 100"

definition DISMISSED_CACHE_CLEANUP_THRESHOLD :: nat where
  "DISMISSED_CACHE_CLEANUP_THRESHOLD = 50"

definition MAX_SAFE_INTEGER :: int where
  "MAX_SAFE_INTEGER = 9007199254740991"

section \<open>The registry (state.ts, class ToastStateManager)\<close>

text \<open>
  What the registry does to the outside world, in the order it does it: a publication on
  one of the three subscriber channels, or a call of a user callback. Each entry is
  stored with the registry contents a subscriber would read at that moment through
  \<^verbatim>\<open>getToasts\<close>/\<^verbatim>\<open>getToast\<close> (the active list), together with the dismissed-id cache.
\<close>

datatype emitted =
    Published_create ToastT
  | Published_update ToastT
  | Published_dismiss "tid option"
  | Called_onDismiss callback ToastT
  | Called_finally callback

type_synonym dismissed_cache = "(tid \<times> int) list"

type_synonym snapshot = "ToastT list \<times> dismissed_cache"

text \<open>
  The mutable state: the fields of the singleton, the module-level counter
  \<^verbatim>\<open>toastCount\<close>, and the trace of effects. The \<^verbatim>\<open>Map\<close> \<open>dismissedToasts\<close> iterates in
  insertion order and \<^verbatim>\<open>set\<close> on a present key keeps the key's place, which is
  \<open>AList.update\<close> on an association list.
\<close>

record manager =
  toasts :: "ToastT list"
  dismissedToasts :: dismissed_cache
  toastCount :: int
  trace :: "(emitted \<times> snapshot) list"

definition initial :: manager where
  "initial = \<lparr>toasts = [], dismissedToasts = [], toastCount = 0, trace = []\<rparr>"

definition emit :: "emitted \<Rightarrow> manager \<Rightarrow> manager" where
  "emit e s = s\<lparr>trace := trace s @ [(e, (toasts s, dismissedToasts s))]\<rparr>"

definition publish :: "ToastT \<Rightarrow> manager \<Rightarrow> manager" where
  "publish toast s = emit (Published_create toast) s"

definition publishDismiss :: "tid option \<Rightarrow> manager \<Rightarrow> manager" where
  "publishDismiss toastId s = emit (Published_dismiss toastId) s"

definition publishUpdate :: "ToastT \<Rightarrow> manager \<Rightarrow> manager" where
  "publishUpdate toast s = emit (Published_update toast) s"

subsection \<open>generateId\<close>

text \<open>The decimal digits a template literal prints for an integer.\<close>

definition digit_char :: "int \<Rightarrow> char" where
  "digit_char d = char_of (d + 48)"

function decimal :: "int \<Rightarrow> string \<Rightarrow> string" where
  "decimal n acc =
     (if n < 10 then digit_char n # acc
      else decimal (n div 10) (digit_char (n mod 10) # acc))"
  by pat_completeness auto
termination
  by (relation "measure (\<lambda>(n, acc). nat n)") auto

definition string_of_int :: "int \<Rightarrow> string" where
  "string_of_int i = (if i < 0 then CHR ''-'' # decimal (- i) [] else decimal i [])"

text \<open>\<open>now\<close> is the reading of \<^verbatim>\<open>Date.now()\<close>; one synchronous call reads one value.\<close>

definition generateId :: "int \<Rightarrow> manager \<Rightarrow> tid \<times> manager" where
  "generateId now s =
     (let c = (toastCount s + 1) mod MAX_SAFE_INTEGER
      in (SId (''sonner-'' @ string_of_int c @ ''-'' @ string_of_int now), s\<lparr>toastCount := c\<rparr>))"

subsection \<open>Array and Map helpers\<close>

fun findIndex :: "('a \<Rightarrow> bool) \<Rightarrow> 'a list \<Rightarrow> int" where
  "findIndex P [] = - 1"
| "findIndex P (x # xs) =
     (if P x then 0 else (let i = findIndex P xs in if i = - 1 then - 1 else i + 1))"

definition has :: "dismissed_cache \<Rightarrow> tid \<Rightarrow> bool" where
  "has d k = (map_of d k \<noteq> None)"

subsection \<open>cleanupDismissedCache\<close>

definition cleanupDismissedCache :: "manager \<Rightarrow> manager" where
  "cleanupDismissedCache s =
     (if length (dismissedToasts s) \<le> DISMISSED_CACHE_MAX_SIZE then s
      else
        let entries = sort_key snd (dismissedToasts s);
            toRemove = take DISMISSED_CACHE_CLEANUP_THRESHOLD entries
        in s\<lparr>dismissedToasts := fold (\<lambda>(k, _) d. AList.delete k d) toRemove (dismissedToasts s)\<rparr>)"

subsection \<open>create\<close>

definition resolveId :: "int \<Rightarrow> ExternalToast \<Rightarrow> manager \<Rightarrow> tid \<times> manager" where
  "resolveId now options s = (case o_id options of Some i \<Rightarrow> (i, s) | None \<Rightarrow> generateId now s)"

definition build :: "tid \<Rightarrow> ToastType \<Rightarrow> content option \<Rightarrow> ExternalToast \<Rightarrow> int \<Rightarrow> ToastT" where
  "build i ty ttl options now =
     \<lparr>id_t = i, type_t = ty, title = ttl, description = o_description options,
      duration = o_duration options, dismissible = o_dismissible options,
      onDismiss = o_onDismiss options, onAutoClose = o_onAutoClose options,
      important = o_important options, toasterId = o_toasterId options, createdAt = now\<rparr>"

definition create :: "int \<Rightarrow> content option \<Rightarrow> ToastType \<Rightarrow> ExternalToast \<Rightarrow> manager \<Rightarrow> tid \<times> manager" where
  "create now ttl ty options s0 =
     (let (i, s) = resolveId now options s0 in
      if has (dismissedToasts s) i then (i, s)
      else
        let toast = build i ty ttl options now;
            existingIndex = findIndex (\<lambda>t. id_t t = i) (toasts s)
        in if existingIndex > - 1
           then (i, publishUpdate toast (s\<lparr>toasts := (toasts s)[nat existingIndex := toast]\<rparr>))
           else (i, publish toast (s\<lparr>toasts := toasts s @ [toast]\<rparr>)))"

subsection \<open>update\<close>

text \<open>\<open>spread old new\<close> is the value of a property after \<^verbatim>\<open>{...existing, ...options}\<close>;
  \<open>coalesce new old\<close> is \<^verbatim>\<open>options.p ?? existing.p\<close>.\<close>

definition spread :: "'a option \<Rightarrow> 'a option option \<Rightarrow> 'a option" where
  "spread old new = (case new of None \<Rightarrow> old | Some v \<Rightarrow> v)"

definition coalesce :: "'a option option \<Rightarrow> 'a \<Rightarrow> 'a" where
  "coalesce new old = (case new of Some (Some v) \<Rightarrow> v | _ \<Rightarrow> old)"

definition coalesce_opt :: "'a option option \<Rightarrow> 'a option \<Rightarrow> 'a option" where
  "coalesce_opt new old = (case new of Some (Some v) \<Rightarrow> Some v | _ \<Rightarrow> old)"

text \<open>
  The object literal of \<^verbatim>\<open>update\<close>: first the two spreads, then the four properties
  written after them, which win. \<open>type\<close> and \<open>title\<close> are among those four, so what
  the spreads leave there is never read.
\<close>

definition spread_over :: "ToastT \<Rightarrow> UpdateToastOptions \<Rightarrow> ToastT" where
  "spread_over existingToast options =
     \<lparr>id_t = (case u_id options of None \<Rightarrow> id_t existingToast | Some j \<Rightarrow> j),
      type_t = type_t existingToast,
      title = title existingToast,
      description = spread (description existingToast) (u_description options),
      duration = spread (duration existingToast) (u_duration options),
      dismissible = spread (dismissible existingToast) (u_dismissible options),
      onDismiss = spread (onDismiss existingToast) (u_onDismiss options),
      onAutoClose = spread (onAutoClose existingToast) (u_onAutoClose options),
      important = spread (important existingToast) (u_important options),
      toasterId = spread (toasterId existingToast) (u_toasterId options),
      createdAt = (case u_createdAt options of None \<Rightarrow> createdAt existingToast | Some c \<Rightarrow> c)\<rparr>"

definition merge :: "ToastT \<Rightarrow> UpdateToastOptions \<Rightarrow> tid \<Rightarrow> ToastT" where
  "merge existingToast options toastId =
     (spread_over existingToast options)
       \<lparr>id_t := toastId,
        type_t := coalesce (u_type options) (type_t existingToast),
        title := coalesce_opt (u_title options) (title existingToast),
        createdAt := createdAt existingToast\<rparr>"

definition update :: "tid \<Rightarrow> UpdateToastOptions \<Rightarrow> manager \<Rightarrow> bool \<times> manager" where
  "update toastId options s =
     (let index = findIndex (\<lambda>t. id_t t = toastId) (toasts s) in
      if index = - 1 then (False, s)
      else
        let existingToast = toasts s ! nat index;
            updatedToast = merge existingToast options toastId
        in (True, publishUpdate updatedToast (s\<lparr>toasts := (toasts s)[nat index := updatedToast]\<rparr>)))"

subsection \<open>dismiss\<close>

definition call_onDismiss :: "ToastT \<Rightarrow> manager \<Rightarrow> manager" where
  "call_onDismiss toast s =
     (case onDismiss toast of None \<Rightarrow> s | Some cb \<Rightarrow> emit (Called_onDismiss cb toast) s)"

definition dismiss :: "int \<Rightarrow> tid option \<Rightarrow> manager \<Rightarrow> manager" where
  "dismiss now toastId s =
     (let s1 =
        (case toastId of
           None \<Rightarrow>
             (fold (\<lambda>toast s'. call_onDismiss toast
                      (s'\<lparr>dismissedToasts := AList.update (id_t toast) now (dismissedToasts s')\<rparr>))
                   (toasts s) s)\<lparr>toasts := []\<rparr>
         | Some i \<Rightarrow>
             (let s' = (case List.find (\<lambda>t. id_t t = i) (toasts s) of
                          Some toast \<Rightarrow> call_onDismiss toast s
                        | None \<Rightarrow> s)
              in s'\<lparr>dismissedToasts := AList.update i now (dismissedToasts s'),
                     toasts := filter (\<lambda>t. id_t t \<noteq> i) (toasts s')\<rparr>))
      in cleanupDismissedCache (publishDismiss toastId s1))"

subsection \<open>Queries\<close>

definition getToasts :: "manager \<Rightarrow> ToastT list" where
  "getToasts s = toasts s"

definition getToast :: "manager \<Rightarrow> tid \<Rightarrow> ToastT option" where
  "getToast s toastId = List.find (\<lambda>t. id_t t = toastId) (toasts s)"

definition isActive :: "manager \<Rightarrow> tid \<Rightarrow> bool" where
  "isActive s toastId = list_ex (\<lambda>t. id_t t = toastId) (toasts s)"

definition clearDismissedHistory :: "manager \<Rightarrow> manager" where
  "clearDismissedHistory s = s\<lparr>dismissedToasts := []\<rparr>"

subsection \<open>What one call emits\<close>

text \<open>What a call appended to the trace, and the publications among it.\<close>

definition emitted_by :: "manager \<Rightarrow> manager \<Rightarrow> (emitted \<times> snapshot) list" where
  "emitted_by s s' = drop (length (trace s)) (trace s')"

fun is_publication :: "emitted \<times> snapshot \<Rightarrow> bool" where
  "is_publication (Published_create _, _) = True"
| "is_publication (Published_update _, _) = True"
| "is_publication (Published_dismiss _, _) = True"
| "is_publication _ = False"

definition publications_by :: "manager \<Rightarrow> manager \<Rightarrow> (emitted \<times> snapshot) list" where
  "publications_by s s' = filter is_publication (emitted_by s s')"

subsection \<open>promise\<close>

text \<open>
  The work handed to \<^verbatim>\<open>promise\<close> is a promise or a function returning one. A promise
  settles as resolved or rejected; the function is called before the \<^verbatim>\<open>try\<close> block, so a
  function that throws when called is a third case (\<open>Inl\<close>).

  Whatever the method calls that is not the registry's own code can throw. The message of
  \<^verbatim>\<open>success\<close>/\<^verbatim>\<open>error\<close> is a value or a function (\<^verbatim>\<open>typeof ... === "function"\<close>), and
  the function returns a message (\<open>Inr\<close>) or throws (\<open>Inl\<close>). The \<^verbatim>\<open>finally\<close> callback
  returns or throws. The subscribers that \<^verbatim>\<open>create\<close> and \<^verbatim>\<open>update\<close> notify return or
  throw: \<open>subscribers p\<close> is what notifying them of the publication \<open>p\<close> throws, \<open>None\<close>
  when they all return.
\<close>

datatype ('a, 'e) settled = Resolved 'a | Rejected 'e

datatype ('a, 'e) work = Promise "('a, 'e) settled" | Function "'e + ('a, 'e) settled"

datatype ('x, 'e) message = Static "content option" | Compute "'x \<Rightarrow> 'e + content option"

datatype 'e returns = Returns | Throws 'e

record ('a, 'e) PromiseData =
  p_loading :: "content option"
  p_success :: "('a, 'e) message"
  p_error :: "('e, 'e) message"
  p_finally :: "(callback \<times> 'e returns) option"

definition resolve_message :: "('x, 'e) message \<Rightarrow> 'x \<Rightarrow> 'e + content option" where
  "resolve_message m x = (case m of Compute f \<Rightarrow> f x | Static c \<Rightarrow> Inr c)"

text \<open>
  \<^verbatim>\<open>create\<close> and \<^verbatim>\<open>update\<close> publish at most once, as their last step; a subscriber that
  throws there makes the call throw, with the registry already changed.
\<close>

definition thrown_by :: "(emitted \<Rightarrow> 'e option) \<Rightarrow> manager \<Rightarrow> manager \<Rightarrow> 'e option" where
  "thrown_by subscribers s s' =
     (case publications_by s s' of [] \<Rightarrow> None | p # _ \<Rightarrow> subscribers (fst p))"

definition settle_options :: "ToastType \<Rightarrow> content option \<Rightarrow> ExternalToast \<Rightarrow> UpdateToastOptions" where
  "settle_options ty msg options =
     no_update\<lparr>u_type := Some (Some ty), u_title := Some msg,
       u_dismissible := Some (Some True), u_duration := Some (o_duration options)\<rparr>"

text \<open>
  The \<^verbatim>\<open>try\<close> block, once the awaited promise has settled. \<open>Inl\<close> is what the block
  throws: the rejection, or what the success message function or an update subscriber
  throws; \<open>Inr\<close> is the value of \<^verbatim>\<open>return result\<close>.
\<close>

definition try_block ::
  "('a, 'e) settled \<Rightarrow> tid \<Rightarrow> ('a, 'e) PromiseData \<Rightarrow> ExternalToast \<Rightarrow> (emitted \<Rightarrow> 'e option)
     \<Rightarrow> manager \<Rightarrow> ('e + 'a) \<times> manager" where
  "try_block outcome i data options subscribers s =
     (case outcome of
        Rejected err \<Rightarrow> (Inl err, s)
      | Resolved result \<Rightarrow>
          (case resolve_message (p_success data) result of
             Inl thrown \<Rightarrow> (Inl thrown, s)
           | Inr successMessage \<Rightarrow>
               (let s1 = snd (update i (settle_options Success successMessage options) s)
                in case thrown_by subscribers s s1 of
                     Some thrown \<Rightarrow> (Inl thrown, s1)
                   | None \<Rightarrow> (Inr result, s1))))"

text \<open>
  The \<^verbatim>\<open>catch\<close> block, entered with whatever the \<^verbatim>\<open>try\<close> block threw. It ends with
  \<^verbatim>\<open>throw error\<close>, unless the error message function or an update subscriber throws
  first.
\<close>

definition catch_block ::
  "'e \<Rightarrow> tid \<Rightarrow> ('a, 'e) PromiseData \<Rightarrow> ExternalToast \<Rightarrow> (emitted \<Rightarrow> 'e option)
     \<Rightarrow> manager \<Rightarrow> ('e + 'a) \<times> manager" where
  "catch_block error i data options subscribers s =
     (case resolve_message (p_error data) error of
        Inl thrown \<Rightarrow> (Inl thrown, s)
      | Inr errorMessage \<Rightarrow>
          (let s1 = snd (update i (settle_options Error errorMessage options) s)
           in case thrown_by subscribers s s1 of
                Some thrown \<Rightarrow> (Inl thrown, s1)
              | None \<Rightarrow> (Inl error, s1)))"

text \<open>
  The \<^verbatim>\<open>finally\<close> block runs on every way out of \<^verbatim>\<open>try\<close> and \<^verbatim>\<open>catch\<close>. When the
  callback throws, that replaces the pending return or throw.
\<close>

definition finally_block ::
  "('a, 'e) PromiseData \<Rightarrow> ('e + 'a) \<times> manager \<Rightarrow> ('e + 'a) \<times> manager" where
  "finally_block data pending =
     (case p_finally data of
        None \<Rightarrow> pending
      | Some (cb, behaviour) \<Rightarrow>
          (case behaviour of Returns \<Rightarrow> fst pending | Throws thrown \<Rightarrow> Inl thrown,
           emit (Called_finally cb) (snd pending)))"

definition promise_settle ::
  "('a, 'e) settled \<Rightarrow> tid \<Rightarrow> ('a, 'e) PromiseData \<Rightarrow> ExternalToast \<Rightarrow> (emitted \<Rightarrow> 'e option)
     \<Rightarrow> manager \<Rightarrow> ('e + 'a) \<times> manager" where
  "promise_settle outcome i data options subscribers s =
     finally_block data
       (case try_block outcome i data options subscribers s of
          (Inl error, s1) \<Rightarrow> catch_block error i data options subscribers s1
        | (Inr result, s1) \<Rightarrow> (Inr result, s1))"

text \<open>The options of the loading toast:
  \<^verbatim>\<open>{...options, duration: Number.POSITIVE_INFINITY, dismissible: false}\<close>.\<close>

definition loading_options :: "ExternalToast \<Rightarrow> ExternalToast" where
  "loading_options options = options\<lparr>o_duration := Some Infinity, o_dismissible := Some False\<rparr>"

text \<open>
  The whole call. \<^verbatim>\<open>create\<close> and the call of the work function come before the \<^verbatim>\<open>try\<close>
  block: what they throw leaves the method at once. While the promise is pending the call
  is suspended and other registry calls can run; \<open>during\<close> is what they do to the
  registry in the meantime.
\<close>

definition promise ::
  "int \<Rightarrow> ('a, 'e) work \<Rightarrow> ('a, 'e) PromiseData \<Rightarrow> ExternalToast \<Rightarrow> (emitted \<Rightarrow> 'e option)
     \<Rightarrow> (manager \<Rightarrow> manager) \<Rightarrow> manager \<Rightarrow> ('e + 'a) \<times> manager" where
  "promise now w data options subscribers during s =
     (let (i, s1) = create now (p_loading data) Loading (loading_options options) s
      in case thrown_by subscribers s s1 of
           Some thrown \<Rightarrow> (Inl thrown, s1)
         | None \<Rightarrow>
             (case w of
                Promise outcome \<Rightarrow> promise_settle outcome i data options subscribers (during s1)
              | Function (Inl thrown) \<Rightarrow> (Inl thrown, s1)
              | Function (Inr outcome) \<Rightarrow>
                  promise_settle outcome i data options subscribers (during s1)))"

section \<open>The visible toasts of a Toaster (toaster.tsx)\<close>

datatype Position =
  Top_left | Top_center | Top_right | Bottom_left | Bottom_center | Bottom_right

fun startsWith_bottom :: "Position \<Rightarrow> bool" where
  "startsWith_bottom Bottom_left = True"
| "startsWith_bottom Bottom_center = True"
| "startsWith_bottom Bottom_right = True"
| "startsWith_bottom _ = False"

text \<open>\<^verbatim>\<open>!toasterId\<close> holds for \<^verbatim>\<open>undefined\<close> and for the empty string.\<close>

definition filteredToasts :: "string option \<Rightarrow> ToastT list \<Rightarrow> ToastT list" where
  "filteredToasts tId ts =
     (if tId = None \<or> tId = Some [] then ts
      else filter (\<lambda>t. toasterId t = tId \<or> toasterId t = None) ts)"

text \<open>\<^verbatim>\<open>Array.prototype.sort\<close> is stable, as \<open>sort_key\<close> is; the comparator
  \<^verbatim>\<open>b.createdAt - a.createdAt\<close> orders by decreasing \<open>createdAt\<close>.\<close>

definition sortedToasts :: "Position \<Rightarrow> ToastT list \<Rightarrow> ToastT list" where
  "sortedToasts position filtered =
     (let sorted = sort_key (\<lambda>t. - createdAt t) filtered
      in if startsWith_bottom position then rev sorted else sorted)"

text \<open>
  \<^verbatim>\<open>indexOf\<close> compares objects by identity. The list a Toaster receives is a copy of the
  registry's active list, whose toasts have pairwise different identifiers; there two
  entries are the same object exactly when they are equal records.
\<close>

definition indexOf :: "'a list \<Rightarrow> 'a \<Rightarrow> int" where
  "indexOf xs a = findIndex (\<lambda>x. x = a) xs"

definition truthy :: "bool option \<Rightarrow> bool" where
  "truthy b = (b = Some True)"

definition visibleToastList :: "int \<Rightarrow> ToastT list \<Rightarrow> ToastT list" where
  "visibleToastList visibleToasts sorted_list =
     (if visibleToasts \<le> 0 then sorted_list
      else
        let important_list = filter (\<lambda>t. truthy (important t)) sorted_list;
            regular = filter (\<lambda>t. \<not> truthy (important t)) sorted_list;
            remainingSlots = max 0 (visibleToasts - int (length important_list));
            visibleRegular = take (nat remainingSlots) regular;
            combined = important_list @ visibleRegular
        in sort_key (indexOf sorted_list) combined)"

definition visible :: "string option \<Rightarrow> Position \<Rightarrow> int \<Rightarrow> ToastT list \<Rightarrow> ToastT list" where
  "visible tId position visibleToasts ts =
     visibleToastList visibleToasts (sortedToasts position (filteredToasts tId ts))"

section \<open>Observing one call\<close>

text \<open>The cache once \<^verbatim>\<open>dismiss\<close> has made its \<^verbatim>\<open>dismissedToasts.set\<close> calls, before
  \<^verbatim>\<open>cleanupDismissedCache\<close> runs.\<close>

definition recorded :: "int \<Rightarrow> tid option \<Rightarrow> manager \<Rightarrow> dismissed_cache" where
  "recorded now toastId s =
     (case toastId of
        Some i \<Rightarrow> AList.update i now (dismissedToasts s)
      | None \<Rightarrow> fold (\<lambda>t. AList.update (id_t t) now) (toasts s) (dismissedToasts s))"


text \<open>The registry invariant: one active toast per identifier, one cache entry per key.\<close>

definition wf :: "manager \<Rightarrow> bool" where
  "wf s = (distinct (map id_t (toasts s)) \<and> distinct (map fst (dismissedToasts s)))"

section \<open>Concrete registries\<close>

text \<open>The inputs at which the theorems below are instantiated and evaluated.\<close>

definition with_id :: "tid \<Rightarrow> ExternalToast" where
  "with_id i = no_options\<lparr>o_id := Some i\<rparr>"

definition s_gone :: manager where
  "s_gone = initial\<lparr>dismissedToasts := [(SId ''x'', 5)]\<rparr>"

definition s_one :: manager where
  "s_one = initial\<lparr>toasts := [build (SId ''x'') Loading (Some (Text ''Saving'')) no_options 1]\<rparr>"

definition numbered :: "nat \<Rightarrow> ToastT" where
  "numbered k = build (NId (int k)) Default (Some (Text ''note'')) no_options (int k)"

definition crowd :: "nat \<Rightarrow> manager" where
  "crowd n = initial\<lparr>toasts := map numbered [0..<n]\<rparr>"

definition full_cache :: manager where
  "full_cache = initial\<lparr>dismissedToasts := map (\<lambda>k. (NId (int k), int k)) [0..<100]\<rparr>"

definition stray :: UpdateToastOptions where
  "stray = no_update\<lparr>u_id := Some (SId ''y''), u_createdAt := Some 99,
     u_title := Some (Some (Text ''Done''))\<rparr>"

definition blank_title :: UpdateToastOptions where
  "blank_title = no_update\<lparr>u_title := Some (Some (Text ''''))\<rparr>"

definition undefined_title :: UpdateToastOptions where
  "undefined_title = no_update\<lparr>u_title := Some None, u_description := Some (Some (Text ''d''))\<rparr>"




definition marked :: "nat \<Rightarrow> ToastT" where
  "marked k = (numbered k)\<lparr>important := Some (k = 4)\<rparr>"

definition six_newest_first :: "ToastT list" where
  "six_newest_first = sortedToasts Top_center (map marked [0..<6])"

section \<open>Facts about the helpers\<close>

lemma findIndex_ge: "- 1 \<le> findIndex P xs"
  by (induction xs) (auto simp: Let_def)

lemma findIndex_none: "findIndex P xs = - 1 \<longleftrightarrow> (\<forall>x \<in> set xs. \<not> P x)"
proof (induction xs)
  case Nil
  show ?case by simp
next
  case (Cons x xs)
  have "- 1 \<le> findIndex P xs" by (rule findIndex_ge)
  with Cons show ?case by (auto simp: Let_def)
qed

lemma findIndex_found:
  "findIndex P xs \<noteq> - 1 \<Longrightarrow> nat (findIndex P xs) < length xs \<and> P (xs ! nat (findIndex P xs))"
proof (induction xs)
  case Nil
  then show ?case by simp
next
  case (Cons x xs)
  have ge: "- 1 \<le> findIndex P xs" by (rule findIndex_ge)
  show ?case
  proof (cases "P x")
    case True
    then show ?thesis by simp
  next
    case False
    with Cons.prems have ne: "findIndex P xs \<noteq> - 1" by (auto simp: Let_def split: if_splits)
    with ge have pos: "0 \<le> findIndex P xs" by linarith
    from Cons.IH [OF ne] have ih: "nat (findIndex P xs) < length xs" "P (xs ! nat (findIndex P xs))"
      by simp_all
    from pos have "nat (findIndex P xs + 1) = Suc (nat (findIndex P xs))" by linarith
    with False ne ih show ?thesis by (simp add: Let_def)
  qed
qed

section \<open>Suppressed re-creation\<close>

text \<open>
  C1. If the identifier passed in \<^verbatim>\<open>options.id\<close> is a key of the dismissed-id cache, then
  \<^verbatim>\<open>create\<close>, whatever the title, the kind and the other options, returns that identifier
  and leaves the whole registry as it was: the active list is unchanged and nothing is
  published or called (the trace is unchanged), the cache and the counter too.
\<close>

theorem create_dismissed_noop:
  assumes "has (dismissedToasts s) i" and "o_id options = Some i"
  shows "create now ttl ty options s = (i, s)"
  using assms by (simp add: create_def resolveId_def)

theorem create_dismissed_noop_witness:
  "has (dismissedToasts s_gone) (SId ''x'') \<and>
   create 9 (Some (Text ''again'')) Success (with_id (SId ''x'')) s_gone = (SId ''x'', s_gone)"
proof -
  have h: "has (dismissedToasts s_gone) (SId ''x'')"
    by (simp add: s_gone_def initial_def has_def)
  have o: "o_id (with_id (SId ''x'')) = Some (SId ''x'')"
    by (simp add: with_id_def)
  from create_dismissed_noop [OF h o] h show ?thesis by simp
qed

lemma list_update_filter_same:
  assumes "k < length xs" "f (xs ! k) = a" "f y = a"
  shows "filter (\<lambda>t. f t \<noteq> a) (xs[k := y]) = filter (\<lambda>t. f t \<noteq> a) xs"
  using assms
proof (induction xs arbitrary: k)
  case Nil then show ?case by simp
next
  case (Cons x xs) then show ?case by (cases k) auto
qed

lemma list_update_filter_distinct:
  assumes "k < length xs" "f (xs ! k) = a" "f y = a" "distinct (map f xs)"
  shows "filter (\<lambda>t. f t = a) (xs[k := y]) = [y]"
  using assms
proof (induction xs arbitrary: k)
  case Nil then show ?case by simp
next
  case (Cons x xs)
  show ?case
  proof (cases k)
    case 0
    with Cons.prems have "a \<notin> f ` set xs" by simp
    then have "\<forall>t \<in> set xs. f t \<noteq> a" by blast
    then have "filter (\<lambda>t. f t = a) xs = []" by (simp add: filter_empty_conv)
    with 0 Cons.prems show ?thesis by simp
  next
    case (Suc j)
    with Cons.prems have "xs ! j \<in> set xs" "f (xs ! j) = a" by simp_all
    then have "a \<in> f ` set xs" by blast
    with Cons.prems have "f x \<noteq> a" by auto
    with Suc Cons show ?thesis by simp
  qed
qed

lemma find_findIndex:
  "List.find P xs = (if findIndex P xs = - 1 then None else Some (xs ! nat (findIndex P xs)))"
proof (induction xs)
  case Nil show ?case by simp
next
  case (Cons x xs)
  have ge: "- 1 \<le> findIndex P xs" by (rule findIndex_ge)
  show ?case
  proof (cases "P x")
    case True then show ?thesis by simp
  next
    case False
    show ?thesis
    proof (cases "findIndex P xs = - 1")
      case True with False Cons show ?thesis by (simp add: Let_def)
    next
      case ne: False
      with ge have "nat (findIndex P xs + 1) = Suc (nat (findIndex P xs))" by linarith
      with False ne Cons show ?thesis by (simp add: Let_def)
    qed
  qed
qed

lemma findIndex_list_update:
  assumes "findIndex P xs \<noteq> - 1" "P y"
  shows "findIndex P (xs[nat (findIndex P xs) := y]) = findIndex P xs"
  using assms
proof (induction xs)
  case Nil then show ?case by simp
next
  case (Cons x xs)
  have ge: "- 1 \<le> findIndex P xs" by (rule findIndex_ge)
  show ?case
  proof (cases "P x")
    case True with Cons.prems show ?thesis by simp
  next
    case False
    with Cons.prems have ne: "findIndex P xs \<noteq> - 1" by (auto simp: Let_def split: if_splits)
    with ge have "nat (findIndex P xs + 1) = Suc (nat (findIndex P xs))" by linarith
    with False ne Cons show ?thesis by (simp add: Let_def)
  qed
qed

lemma find_list_update_first:
  assumes "findIndex P xs \<noteq> - 1" "P y"
  shows "List.find P (xs[nat (findIndex P xs) := y]) = Some y"
proof -
  from assms have e: "findIndex P (xs[nat (findIndex P xs) := y]) = findIndex P xs"
    by (rule findIndex_list_update)
  from findIndex_found [OF assms(1)] have "nat (findIndex P xs) < length xs" by simp
  with e assms(1) show ?thesis by (simp add: find_findIndex)
qed

lemma isActive_findIndex: "isActive s i \<longleftrightarrow> findIndex (\<lambda>t. id_t t = i) (toasts s) \<noteq> - 1"
  by (simp add: isActive_def findIndex_none list_ex_iff)

lemma getToast_findIndex:
  "getToast s i = (if findIndex (\<lambda>t. id_t t = i) (toasts s) = - 1 then None
                   else Some (toasts s ! nat (findIndex (\<lambda>t. id_t t = i) (toasts s))))"
  by (simp add: getToast_def find_findIndex)

lemma isActive_getToast: "isActive s i \<longleftrightarrow> getToast s i \<noteq> None"
  by (simp add: isActive_findIndex getToast_findIndex)

lemma emitted_by_emit [simp]:
  "trace s1 = trace s \<Longrightarrow> emitted_by s (emit e s1) = [(e, (toasts s1, dismissedToasts s1))]"
  by (simp add: emitted_by_def emit_def)

lemma emitted_by_self [simp]: "emitted_by s s = []"
  by (simp add: emitted_by_def)

lemma emit_fields [simp]:
  "toasts (emit e s) = toasts s" "dismissedToasts (emit e s) = dismissedToasts s"
  "toastCount (emit e s) = toastCount s"
  by (simp_all add: emit_def)

lemma resolveId_fields:
  "toasts (snd (resolveId now options s)) = toasts s"
  "dismissedToasts (snd (resolveId now options s)) = dismissedToasts s"
  "trace (snd (resolveId now options s)) = trace s"
  by (simp_all add: resolveId_def generateId_def Let_def split: option.splits)

lemma build_fields [simp]: "id_t (build i ty ttl options now) = i"
  "createdAt (build i ty ttl options now) = now"
  "type_t (build i ty ttl options now) = ty" "title (build i ty ttl options now) = ttl"
  by (simp_all add: build_def)

section \<open>Creating with the identifier of an active toast\<close>

text \<open>
  C2 (as amended). When the resolved identifier is that of an active toast and is not in
  the dismissed cache, \<^verbatim>\<open>create\<close> returns it, the active list keeps its length and its
  other toasts, it holds exactly one toast with that identifier, namely the newly built
  record, and the call emits exactly one thing, an update publication carrying that
  record (no create publication). The record is built afresh: its \<open>createdAt\<close> is the
  time of this call, not the \<open>createdAt\<close> of the toast it replaces.
\<close>

theorem create_existing_replaces:
  assumes c: "create now ttl ty options s0 = (r, s')"
    and i: "fst (resolveId now options s0) = i"
    and nd: "\<not> has (dismissedToasts s0) i"
    and act: "isActive s0 i"
    and d: "distinct (map id_t (toasts s0))"
  shows "r = i \<and>
    filter (\<lambda>t. id_t t = i) (toasts s') = [build i ty ttl options now] \<and>
    filter (\<lambda>t. id_t t \<noteq> i) (toasts s') = filter (\<lambda>t. id_t t \<noteq> i) (toasts s0) \<and>
    length (toasts s') = length (toasts s0) \<and>
    getToast s' i = Some (build i ty ttl options now) \<and>
    emitted_by s0 s' = [(Published_update (build i ty ttl options now), (toasts s', dismissedToasts s'))] \<and>
    createdAt (build i ty ttl options now) = now"
proof -
  obtain s where r: "resolveId now options s0 = (i, s)"
    using i by (cases "resolveId now options s0") simp
  have ts: "toasts s = toasts s0" and ds: "dismissedToasts s = dismissedToasts s0"
    and tr: "trace s = trace s0"
    using resolveId_fields [of now options s0] r by simp_all
  let ?P = "\<lambda>t. id_t t = i"
  let ?k = "findIndex ?P (toasts s0)"
  let ?new = "build i ty ttl options now"
  from act have ne: "?k \<noteq> - 1" by (simp add: isActive_findIndex)
  have ge: "- 1 \<le> ?k" by (rule findIndex_ge)
  from ne ge have gt: "?k > - 1" by linarith
  from findIndex_found [OF ne] have lt: "nat ?k < length (toasts s0)"
    and at: "id_t (toasts s0 ! nat ?k) = i" by simp_all
  from c r nd gt ts ds
  have s': "s' = publishUpdate ?new (s\<lparr>toasts := (toasts s0)[nat ?k := ?new]\<rparr>)" and ri: "r = i"
    by (auto simp: create_def Let_def)
  have t': "toasts s' = (toasts s0)[nat ?k := ?new]"
    by (simp add: s' publishUpdate_def)
  have f1: "filter ?P (toasts s') = [?new]"
    unfolding t'
    using list_update_filter_distinct [where f = id_t and a = i and y = ?new, OF lt at _ d]
    by simp
  have f2: "filter (\<lambda>t. id_t t \<noteq> i) (toasts s') = filter (\<lambda>t. id_t t \<noteq> i) (toasts s0)"
    unfolding t'
    using list_update_filter_same [where f = id_t and a = i and y = ?new, OF lt at]
    by simp
  have g: "getToast s' i = Some ?new"
    unfolding getToast_def t' by (rule find_list_update_first [OF ne]) simp
  have e: "emitted_by s0 s' = [(Published_update ?new, (toasts s', dismissedToasts s'))]"
    by (simp add: s' publishUpdate_def tr emitted_by_def emit_def)
  from ri f1 f2 g e t' show ?thesis by simp
qed

theorem create_existing_replaces_witness:
  "create 2 (Some (Text ''Saved'')) Success (with_id (SId ''x'')) s_one
     = (SId ''x'', \<lparr>toasts = [build (SId ''x'') Success (Some (Text ''Saved'')) (with_id (SId ''x'')) 2],
          dismissedToasts = [], toastCount = 0,
          trace = [(Published_update (build (SId ''x'') Success (Some (Text ''Saved'')) (with_id (SId ''x'')) 2),
                    ([build (SId ''x'') Success (Some (Text ''Saved'')) (with_id (SId ''x'')) 2], []))]\<rparr>) \<and>
   fst (resolveId 2 (with_id (SId ''x'')) s_one) = SId ''x'' \<and>
   \<not> has (dismissedToasts s_one) (SId ''x'') \<and> isActive s_one (SId ''x'') \<and>
   distinct (map id_t (toasts s_one)) \<and>
   getToast (snd (create 2 (Some (Text ''Saved'')) Success (with_id (SId ''x'')) s_one)) (SId ''x'')
     = Some (build (SId ''x'') Success (Some (Text ''Saved'')) (with_id (SId ''x'')) 2)"
proof -
  let ?s' = "snd (create 2 (Some (Text ''Saved'')) Success (with_id (SId ''x'')) s_one)"
  have c: "create 2 (Some (Text ''Saved'')) Success (with_id (SId ''x'')) s_one = (SId ''x'', ?s')"
    by (simp add: create_def resolveId_def with_id_def has_def s_one_def initial_def Let_def)
  have i: "fst (resolveId 2 (with_id (SId ''x'')) s_one) = SId ''x''"
    by (simp add: resolveId_def with_id_def)
  have nd: "\<not> has (dismissedToasts s_one) (SId ''x'')"
    by (simp add: has_def s_one_def initial_def)
  have act: "isActive s_one (SId ''x'')"
    by (simp add: isActive_def s_one_def initial_def)
  have d: "distinct (map id_t (toasts s_one))"
    by (simp add: s_one_def initial_def)
  have v: "create 2 (Some (Text ''Saved'')) Success (with_id (SId ''x'')) s_one
     = (SId ''x'', \<lparr>toasts = [build (SId ''x'') Success (Some (Text ''Saved'')) (with_id (SId ''x'')) 2],
          dismissedToasts = [], toastCount = 0,
          trace = [(Published_update (build (SId ''x'') Success (Some (Text ''Saved'')) (with_id (SId ''x'')) 2),
                    ([build (SId ''x'') Success (Some (Text ''Saved'')) (with_id (SId ''x'')) 2], []))]\<rparr>)"
    by (simp add: create_def resolveId_def with_id_def has_def s_one_def initial_def Let_def
          publishUpdate_def emit_def)
  from create_existing_replaces [OF c i nd act d] v i nd act d show ?thesis by simp
qed

text \<open>
  Counterexample to C2 as first stated: a toast created at time 1 and created again under the same
  identifier at time 2 is stored with \<open>createdAt = 2\<close>.
\<close>

theorem create_existing_createdAt_counterexample:
  "isActive s_one (SId ''x'') \<and> \<not> has (dismissedToasts s_one) (SId ''x'') \<and>
   map_option createdAt (getToast s_one (SId ''x'')) = Some 1 \<and>
   map_option createdAt
     (getToast (snd (create 2 (Some (Text ''Saved'')) Success (with_id (SId ''x'')) s_one)) (SId ''x''))
     = Some 2"
  by (simp add: create_def resolveId_def with_id_def has_def s_one_def initial_def Let_def
        publishUpdate_def emit_def isActive_def getToast_def)

lemma merge_fields [simp]:
  "id_t (merge T options i) = i" "createdAt (merge T options i) = createdAt T"
  "type_t (merge T options i) = coalesce (u_type options) (type_t T)"
  "title (merge T options i) = coalesce_opt (u_title options) (title T)"
  by (simp_all add: merge_def)

lemma getToast_id: "getToast s i = Some T \<Longrightarrow> id_t T = i"
  using findIndex_found [of "\<lambda>t. id_t t = i" "toasts s"]
  by (auto simp: getToast_findIndex split: if_splits)

lemma update_absent:
  assumes "\<not> isActive s i"
  shows "update i options s = (False, s)"
  using assms by (simp add: update_def isActive_findIndex)

lemma update_present:
  assumes g: "getToast s i = Some T"
  shows "update i options s =
           (True, publishUpdate (merge T options i)
                    (s\<lparr>toasts := (toasts s)[nat (findIndex (\<lambda>t. id_t t = i) (toasts s)) := merge T options i]\<rparr>))"
  using g by (auto simp: update_def getToast_findIndex Let_def split: if_splits)

lemma update_present_effects:
  assumes g: "getToast s i = Some T" and u: "s' = snd (update i options s)"
  shows "getToast s' i = Some (merge T options i)"
    and "emitted_by s s' = [(Published_update (merge T options i), (toasts s', dismissedToasts s'))]"
    and "length (toasts s') = length (toasts s)"
    and "dismissedToasts s' = dismissedToasts s"
    and "filter (\<lambda>t. id_t t \<noteq> i) (toasts s') = filter (\<lambda>t. id_t t \<noteq> i) (toasts s)"
proof -
  let ?P = "\<lambda>t. id_t t = i"
  let ?k = "findIndex ?P (toasts s)"
  let ?new = "merge T options i"
  from g have ne: "?k \<noteq> - 1" by (simp add: getToast_findIndex split: if_splits)
  from findIndex_found [OF ne] have lt: "nat ?k < length (toasts s)"
    and at: "id_t (toasts s ! nat ?k) = i" by simp_all
  have s': "s' = publishUpdate ?new (s\<lparr>toasts := (toasts s)[nat ?k := ?new]\<rparr>)"
    using update_present [OF g, of options] u by simp
  have t': "toasts s' = (toasts s)[nat ?k := ?new]"
    by (simp add: s' publishUpdate_def)
  show "getToast s' i = Some ?new"
    unfolding getToast_def t' by (rule find_list_update_first [OF ne]) simp
  show "emitted_by s s' = [(Published_update ?new, (toasts s', dismissedToasts s'))]"
    by (simp add: s' publishUpdate_def emitted_by_def emit_def)
  show "length (toasts s') = length (toasts s)" by (simp add: t')
  show "dismissedToasts s' = dismissedToasts s" by (simp add: s' publishUpdate_def)
  show "filter (\<lambda>t. id_t t \<noteq> i) (toasts s') = filter (\<lambda>t. id_t t \<noteq> i) (toasts s)"
    unfolding t'
    using list_update_filter_same [where f = id_t and a = i and y = ?new, OF lt at]
    by simp
qed

section \<open>Updating a toast\<close>

text \<open>
  C3. \<^verbatim>\<open>update\<close> on an identifier that no active toast has returns false and leaves the
  registry as it was. On the identifier of an active toast \<open>T\<close> it returns true, emits
  exactly one thing, an update publication carrying the stored record, and the stored
  record has the identifier and the \<open>createdAt\<close> of \<open>T\<close>, whatever \<^verbatim>\<open>id\<close> or \<^verbatim>\<open>createdAt\<close>
  the partial fields carry.
\<close>

theorem update_identity:
  "(\<not> isActive s i \<longrightarrow> update i options s = (False, s)) \<and>
   (\<forall>T. getToast s i = Some T \<longrightarrow>
      fst (update i options s) = True \<and>
      (\<exists>T'. getToast (snd (update i options s)) i = Some T' \<and>
            id_t T' = id_t T \<and> createdAt T' = createdAt T \<and>
            emitted_by s (snd (update i options s))
              = [(Published_update T',
                  (toasts (snd (update i options s)), dismissedToasts (snd (update i options s))))]))"
proof (intro conjI allI impI)
  assume "\<not> isActive s i"
  then show "update i options s = (False, s)" by (rule update_absent)
next
  fix T assume g: "getToast s i = Some T"
  show "fst (update i options s) = True" by (simp add: update_present [OF g])
next
  fix T assume g: "getToast s i = Some T"
  let ?s' = "snd (update i options s)"
  from getToast_id [OF g] have "id_t (merge T options i) = id_t T" by simp
  with update_present_effects(1,2) [OF g refl, of options]
  show "\<exists>T'. getToast ?s' i = Some T' \<and> id_t T' = id_t T \<and> createdAt T' = createdAt T \<and>
            emitted_by s ?s' = [(Published_update T', (toasts ?s', dismissedToasts ?s'))]"
    by (intro exI [of _ "merge T options i"]) simp
qed

theorem update_identity_witness:
  "\<not> isActive s_one (SId ''z'') \<and> update (SId ''z'') stray s_one = (False, s_one) \<and>
   getToast s_one (SId ''x'') = Some (build (SId ''x'') Loading (Some (Text ''Saving'')) no_options 1) \<and>
   fst (update (SId ''x'') stray s_one) = True \<and>
   (\<exists>T'. getToast (snd (update (SId ''x'') stray s_one)) (SId ''x'') = Some T' \<and>
         id_t T' = SId ''x'' \<and> createdAt T' = 1)"
proof -
  have a: "\<not> isActive s_one (SId ''z'')"
    by (simp add: isActive_def s_one_def initial_def)
  have g: "getToast s_one (SId ''x'') = Some (build (SId ''x'') Loading (Some (Text ''Saving'')) no_options 1)"
    by (simp add: getToast_def s_one_def initial_def)
  from update_identity [of s_one "SId ''z''" stray] a
  have 1: "update (SId ''z'') stray s_one = (False, s_one)" by blast
  from update_identity [of s_one "SId ''x''" stray] g
  have 2: "fst (update (SId ''x'') stray s_one) = True \<and>
     (\<exists>T'. getToast (snd (update (SId ''x'') stray s_one)) (SId ''x'') = Some T' \<and>
         id_t T' = id_t (build (SId ''x'') Loading (Some (Text ''Saving'')) no_options 1) \<and>
         createdAt T' = createdAt (build (SId ''x'') Loading (Some (Text ''Saving'')) no_options 1))"
    by blast
  from a 1 g 2 show ?thesis by simp
qed

text \<open>
  C9 (as amended). On a successful \<^verbatim>\<open>update\<close>, a kind or title that the partial fields
  omit or give as \<^verbatim>\<open>undefined\<close>/\<^verbatim>\<open>null\<close> leaves the stored kind or title as it was; any
  other kind or title given is stored as given, the empty string included.
\<close>

theorem update_retains_kind_and_title:
  assumes g: "getToast s i = Some T"
  shows "fst (update i options s) = True \<and>
    (\<exists>T'. getToast (snd (update i options s)) i = Some T' \<and>
      (u_type options = None \<or> u_type options = Some None \<longrightarrow> type_t T' = type_t T) \<and>
      (u_title options = None \<or> u_title options = Some None \<longrightarrow> title T' = title T) \<and>
      (\<forall>k. u_type options = Some (Some k) \<longrightarrow> type_t T' = k) \<and>
      (\<forall>c. u_title options = Some (Some c) \<longrightarrow> title T' = Some c))"
proof -
  have "getToast (snd (update i options s)) i = Some (merge T options i)"
    by (rule update_present_effects(1) [OF g refl])
  moreover have "fst (update i options s) = True" by (simp add: update_present [OF g])
  ultimately show ?thesis
    by (auto simp: coalesce_def coalesce_opt_def)
qed

theorem update_retains_kind_and_title_witness:
  "getToast s_one (SId ''x'') = Some (build (SId ''x'') Loading (Some (Text ''Saving'')) no_options 1) \<and>
   fst (update (SId ''x'') undefined_title s_one) = True \<and>
   (\<exists>T'. getToast (snd (update (SId ''x'') undefined_title s_one)) (SId ''x'') = Some T' \<and>
      type_t T' = Loading \<and> title T' = Some (Text ''Saving''))"
proof -
  let ?o = undefined_title
  let ?T = "build (SId ''x'') Loading (Some (Text ''Saving'')) no_options 1"
  have g: "getToast s_one (SId ''x'') = Some ?T"
    by (simp add: getToast_def s_one_def initial_def)
  have o: "u_type ?o = None" "u_title ?o = Some None" by (simp_all add: undefined_title_def no_update_def)
  from update_retains_kind_and_title [OF g, of ?o] o g show ?thesis
    by auto
qed

text \<open>
  Counterexample to C9 as first stated, for an empty title: \<^verbatim>\<open>??\<close> only replaces nullish values, so
  updating with the title \<^verbatim>\<open>""\<close> stores the empty title instead of keeping the prior one.
\<close>

theorem update_empty_title_counterexample:
  "map_option title (getToast s_one (SId ''x'')) = Some (Some (Text ''Saving'')) \<and>
   fst (update (SId ''x'') blank_title s_one) = True \<and>
   map_option title (getToast (snd (update (SId ''x'') blank_title s_one)) (SId ''x''))
     = Some (Some (Text ''''))"
  by (simp add: update_def getToast_def s_one_def initial_def Let_def publishUpdate_def emit_def
        merge_def blank_title_def no_update_def build_def coalesce_opt_def)

lemma find_append_new:
  assumes "findIndex P xs = - 1" "P y"
  shows "List.find P (xs @ [y]) = Some y"
proof -
  from assms(1) have "\<forall>x \<in> set xs. \<not> P x" by (simp add: findIndex_none)
  with assms(2) show ?thesis by (induction xs) simp_all
qed

lemma create_cases:
  "create now ttl ty options s0 =
     (let i = fst (resolveId now options s0); s = snd (resolveId now options s0);
          toast = build i ty ttl options now;
          k = findIndex (\<lambda>t. id_t t = i) (toasts s0)
      in if has (dismissedToasts s0) i then (i, s)
         else if k > - 1 then (i, publishUpdate toast (s\<lparr>toasts := (toasts s0)[nat k := toast]\<rparr>))
         else (i, publish toast (s\<lparr>toasts := toasts s0 @ [toast]\<rparr>)))"
  using resolveId_fields [of now options s0]
  by (simp add: create_def Let_def split_beta)

lemma publications_by_emit:
  "trace s1 = trace s \<Longrightarrow>
   publications_by s (emit e s1) = (if is_publication (e, (toasts s1, dismissedToasts s1))
      then [(e, (toasts s1, dismissedToasts s1))] else [])"
  by (simp add: publications_by_def)

lemma create_publications:
  assumes p: "p \<in> set (publications_by s (snd (create now ttl ty options s)))"
  shows "snd p = (toasts (snd (create now ttl ty options s)), dismissedToasts (snd (create now ttl ty options s)))
       \<and> (\<exists>t. (fst p = Published_create t \<or> fst p = Published_update t)
              \<and> getToast (snd (create now ttl ty options s)) (id_t t) = Some t)"
proof -
  let ?i = "fst (resolveId now options s)"
  let ?s = "snd (resolveId now options s)"
  let ?toast = "build ?i ty ttl options now"
  let ?k = "findIndex (\<lambda>t. id_t t = ?i) (toasts s)"
  have tr: "trace ?s = trace s" by (rule resolveId_fields)
  have ge: "- 1 \<le> ?k" by (rule findIndex_ge)
  consider (gone) "has (dismissedToasts s) ?i"
    | (upd) "\<not> has (dismissedToasts s) ?i" "?k > - 1"
    | (new) "\<not> has (dismissedToasts s) ?i" "?k = - 1"
    using ge by linarith
  then show ?thesis
  proof cases
    case gone
    then have "snd (create now ttl ty options s) = ?s" by (simp add: create_cases Let_def)
    with p tr show ?thesis by (simp add: publications_by_def emitted_by_def)
  next
    case upd
    then have ne: "?k \<noteq> - 1" by simp
    from upd have c: "snd (create now ttl ty options s)
        = publishUpdate ?toast (?s\<lparr>toasts := (toasts s)[nat ?k := ?toast]\<rparr>)"
      by (simp add: create_cases Let_def)
    have "List.find (\<lambda>t. id_t t = ?i) ((toasts s)[nat ?k := ?toast]) = Some ?toast"
      by (rule find_list_update_first [OF ne]) simp
    with p show ?thesis
      unfolding c publishUpdate_def
      by (simp add: publications_by_emit tr getToast_def)
  next
    case new
    then have c: "snd (create now ttl ty options s)
        = publish ?toast (?s\<lparr>toasts := toasts s @ [?toast]\<rparr>)"
      by (simp add: create_cases Let_def)
    have "List.find (\<lambda>t. id_t t = ?i) (toasts s @ [?toast]) = Some ?toast"
      by (rule find_append_new [OF new(2)]) simp
    with p show ?thesis
      unfolding c publish_def
      by (simp add: publications_by_emit tr getToast_def)
  qed
qed

lemma update_publications:
  assumes p: "p \<in> set (publications_by s (snd (update i uo s)))"
  shows "snd p = (toasts (snd (update i uo s)), dismissedToasts (snd (update i uo s)))
       \<and> (\<exists>t. fst p = Published_update t \<and> getToast (snd (update i uo s)) (id_t t) = Some t)"
proof (cases "getToast s i")
  case None
  then have "\<not> isActive s i" by (simp add: isActive_getToast)
  from update_absent [OF this, of uo] p show ?thesis
    by (simp add: publications_by_def)
next
  case (Some T)
  from update_present_effects(1,2) [OF Some refl, of uo] p show ?thesis
    by (auto simp: publications_by_def)
qed

lemma cleanup_fields [simp]:
  "toasts (cleanupDismissedCache s) = toasts s" "trace (cleanupDismissedCache s) = trace s"
  "toastCount (cleanupDismissedCache s) = toastCount s"
  by (simp_all add: cleanupDismissedCache_def Let_def)

lemma cleanup_small:
  "length (dismissedToasts s) \<le> DISMISSED_CACHE_MAX_SIZE \<Longrightarrow> cleanupDismissedCache s = s"
  by (simp add: cleanupDismissedCache_def)

lemma cleanup_cache_only:
  "dismissedToasts (cleanupDismissedCache s)
     = dismissedToasts (cleanupDismissedCache (s'\<lparr>dismissedToasts := dismissedToasts s\<rparr>))"
  by (simp add: cleanupDismissedCache_def Let_def)

lemma call_onDismiss_fields [simp]:
  "toasts (call_onDismiss t s) = toasts s" "dismissedToasts (call_onDismiss t s) = dismissedToasts s"
  "toastCount (call_onDismiss t s) = toastCount s"
  by (simp_all add: call_onDismiss_def split: option.splits)

lemma call_onDismiss_trace:
  "\<exists>calls. trace (call_onDismiss t s) = trace s @ calls \<and> (\<forall>c \<in> set calls. \<not> is_publication c)"
  by (auto simp: call_onDismiss_def emit_def split: option.splits)

lemma dismiss_all_loop:
  fixes now :: int
  defines "step \<equiv> (\<lambda>toast s'. call_onDismiss toast
                      (s'\<lparr>dismissedToasts := AList.update (id_t toast) now (dismissedToasts s')\<rparr>))"
  shows "toasts (fold step ts s) = toasts s"
    and "dismissedToasts (fold step ts s) = fold (\<lambda>t. AList.update (id_t t) now) ts (dismissedToasts s)"
    and "\<exists>calls. trace (fold step ts s) = trace s @ calls \<and> (\<forall>c \<in> set calls. \<not> is_publication c)"
proof -
  show "toasts (fold step ts s) = toasts s"
    by (induction ts arbitrary: s) (simp_all add: step_def)
  show "dismissedToasts (fold step ts s) = fold (\<lambda>t. AList.update (id_t t) now) ts (dismissedToasts s)"
    by (induction ts arbitrary: s) (simp_all add: step_def)
  show "\<exists>calls. trace (fold step ts s) = trace s @ calls \<and> (\<forall>c \<in> set calls. \<not> is_publication c)"
  proof (induction ts arbitrary: s)
    case Nil
    show ?case by simp
  next
    case (Cons t ts)
    let ?s1 = "step t s"
    from call_onDismiss_trace [of t "s\<lparr>dismissedToasts := AList.update (id_t t) now (dismissedToasts s)\<rparr>"]
    obtain c1 where c1: "trace ?s1 = trace s @ c1" "\<forall>c \<in> set c1. \<not> is_publication c"
      by (auto simp: step_def)
    from Cons [of ?s1] obtain c2 where c2: "trace (fold step ts ?s1) = trace ?s1 @ c2"
      "\<forall>c \<in> set c2. \<not> is_publication c" by blast
    from c1 c2 have "trace (fold step (t # ts) s) = trace s @ (c1 @ c2)" by simp
    moreover from c1 c2 have "\<forall>c \<in> set (c1 @ c2). \<not> is_publication c" by auto
    ultimately show ?case by blast
  qed
qed

lemma dismiss_before_publish:
  "\<exists>s1 calls. dismiss now toastId s = cleanupDismissedCache (publishDismiss toastId s1) \<and>
     trace s1 = trace s @ calls \<and> (\<forall>c \<in> set calls. \<not> is_publication c) \<and>
     dismissedToasts s1 = recorded now toastId s \<and>
     toasts s1 = (case toastId of None \<Rightarrow> [] | Some i \<Rightarrow> filter (\<lambda>t. id_t t \<noteq> i) (toasts s))"
proof (cases toastId)
  case None
  let ?step = "\<lambda>toast s'. call_onDismiss toast
                      (s'\<lparr>dismissedToasts := AList.update (id_t toast) now (dismissedToasts s')\<rparr>)"
  let ?s1 = "(fold ?step (toasts s) s)\<lparr>toasts := []\<rparr>"
  from dismiss_all_loop(3) [of now "toasts s" s]
  obtain calls where "trace (fold ?step (toasts s) s) = trace s @ calls"
    "\<forall>c \<in> set calls. \<not> is_publication c" by blast
  moreover have "dismissedToasts ?s1 = recorded now None s"
    by (simp add: recorded_def dismiss_all_loop(2))
  moreover have "dismiss now None s = cleanupDismissedCache (publishDismiss None ?s1)"
    by (simp add: dismiss_def)
  ultimately show ?thesis using None
    by (intro exI [of _ ?s1] exI [of _ calls]) simp
next
  case (Some i)
  let ?s' = "case List.find (\<lambda>t. id_t t = i) (toasts s) of
               Some toast \<Rightarrow> call_onDismiss toast s | None \<Rightarrow> s"
  let ?s1 = "?s'\<lparr>dismissedToasts := AList.update i now (dismissedToasts ?s'),
                 toasts := filter (\<lambda>t. id_t t \<noteq> i) (toasts ?s')\<rparr>"
  have f: "toasts ?s' = toasts s" "dismissedToasts ?s' = dismissedToasts s"
    by (simp_all split: option.splits)
  have "\<exists>calls. trace ?s' = trace s @ calls \<and> (\<forall>c \<in> set calls. \<not> is_publication c)"
    using call_onDismiss_trace by (cases "List.find (\<lambda>t. id_t t = i) (toasts s)") simp_all
  then obtain calls where "trace ?s' = trace s @ calls" "\<forall>c \<in> set calls. \<not> is_publication c"
    by blast
  moreover have "dismiss now (Some i) s = cleanupDismissedCache (publishDismiss (Some i) ?s1)"
    by (simp add: dismiss_def Let_def)
  moreover have "dismissedToasts ?s1 = recorded now (Some i) s" "toasts ?s1 = filter (\<lambda>t. id_t t \<noteq> i) (toasts s)"
    using f by (simp_all add: recorded_def)
  ultimately show ?thesis using Some
    by (intro exI [of _ ?s1] exI [of _ calls]) simp
qed

lemma dismiss_effects:
  shows dismiss_toasts: "toasts (dismiss now toastId s)
           = (case toastId of None \<Rightarrow> [] | Some i \<Rightarrow> filter (\<lambda>t. id_t t \<noteq> i) (toasts s))"
    and dismiss_publications: "publications_by s (dismiss now toastId s)
           = [(Published_dismiss toastId, (toasts (dismiss now toastId s), recorded now toastId s))]"
    and dismiss_cache: "dismissedToasts (dismiss now toastId s)
           = dismissedToasts (cleanupDismissedCache (s\<lparr>dismissedToasts := recorded now toastId s\<rparr>))"
proof -
  from dismiss_before_publish [of now toastId s]
  obtain s1 calls where d: "dismiss now toastId s = cleanupDismissedCache (publishDismiss toastId s1)"
    and tr: "trace s1 = trace s @ calls" and np: "\<forall>c \<in> set calls. \<not> is_publication c"
    and dc: "dismissedToasts s1 = recorded now toastId s"
    and ts: "toasts s1 = (case toastId of None \<Rightarrow> [] | Some i \<Rightarrow> filter (\<lambda>t. id_t t \<noteq> i) (toasts s))"
    by blast
  show t: "toasts (dismiss now toastId s)
           = (case toastId of None \<Rightarrow> [] | Some i \<Rightarrow> filter (\<lambda>t. id_t t \<noteq> i) (toasts s))"
    by (simp add: d publishDismiss_def ts)
  from np have "filter is_publication calls = []" by (simp add: filter_empty_conv)
  then show "publications_by s (dismiss now toastId s)
           = [(Published_dismiss toastId, (toasts (dismiss now toastId s), recorded now toastId s))]"
    unfolding t by (simp add: d publishDismiss_def emit_def tr publications_by_def emitted_by_def dc ts)
  have "dismissedToasts (dismiss now toastId s)
      = dismissedToasts (cleanupDismissedCache (publishDismiss toastId s1))" by (simp add: d)
  also have "\<dots> = dismissedToasts (cleanupDismissedCache (s\<lparr>dismissedToasts := dismissedToasts (publishDismiss toastId s1)\<rparr>))"
    by (rule cleanup_cache_only)
  finally show "dismissedToasts (dismiss now toastId s)
           = dismissedToasts (cleanupDismissedCache (s\<lparr>dismissedToasts := recorded now toastId s\<rparr>))"
    by (simp add: publishDismiss_def dc)
qed

lemma recorded_one: "map_of (recorded now (Some i) s) i = Some now"
  by (simp add: recorded_def update_conv')

lemma map_of_fold_update:
  "map_of (fold (\<lambda>t. AList.update (f t) v) ts d) k = (if k \<in> f ` set ts then Some v else map_of d k)"
  by (induction ts arbitrary: d) (auto simp: update_conv')

lemma recorded_all: "t \<in> set (toasts s) \<Longrightarrow> map_of (recorded now None s) (id_t t) = Some now"
  by (simp add: recorded_def map_of_fold_update)








section \<open>Dismissing an identifier that is not active\<close>




section \<open>Publication after mutation\<close>

lemma getToast_dismissed: "getToast (dismiss now (Some j) s) j = None"
  by (simp add: getToast_def dismiss_toasts find_None_iff)

text \<open>
  C7 (as amended). Every publication made by \<^verbatim>\<open>create\<close> or \<^verbatim>\<open>update\<close> is made when the
  registry is already in the state the call leaves it in: a subscriber reading the
  active list sees the final list, and looking the published toast up by its identifier
  returns that toast. \<^verbatim>\<open>dismiss\<close> publishes exactly once, when the active list is already
  the final one (the dismissed toast is gone, or the list is empty) and every dismissed
  identifier is already recorded in the cache at the current timestamp. The eviction of
  old cache entries is the one change \<^verbatim>\<open>dismiss\<close> applies after its publication: the
  final cache is the cleanup of the cache the subscriber saw.
\<close>

theorem publication_follows_mutation:
  "(\<forall>p \<in> set (publications_by s (snd (create now ttl ty options s))).
      snd p = (toasts (snd (create now ttl ty options s)),
               dismissedToasts (snd (create now ttl ty options s))) \<and>
      (\<exists>t. (fst p = Published_create t \<or> fst p = Published_update t) \<and>
           getToast (snd (create now ttl ty options s)) (id_t t) = Some t)) \<and>
   (\<forall>p \<in> set (publications_by s (snd (update i uo s))).
      snd p = (toasts (snd (update i uo s)), dismissedToasts (snd (update i uo s))) \<and>
      (\<exists>t. fst p = Published_update t \<and> getToast (snd (update i uo s)) (id_t t) = Some t)) \<and>
   publications_by s (dismiss now toastId s)
     = [(Published_dismiss toastId, (toasts (dismiss now toastId s), recorded now toastId s))] \<and>
   (\<forall>j. toastId = Some j \<longrightarrow>
      getToast (dismiss now toastId s) j = None \<and> map_of (recorded now toastId s) j = Some now) \<and>
   (toastId = None \<longrightarrow>
      toasts (dismiss now toastId s) = [] \<and>
      (\<forall>t \<in> set (toasts s). map_of (recorded now toastId s) (id_t t) = Some now)) \<and>
   dismissedToasts (dismiss now toastId s)
     = dismissedToasts (cleanupDismissedCache (s\<lparr>dismissedToasts := recorded now toastId s\<rparr>))"
proof (intro conjI)
  show "\<forall>p \<in> set (publications_by s (snd (create now ttl ty options s))).
      snd p = (toasts (snd (create now ttl ty options s)),
               dismissedToasts (snd (create now ttl ty options s))) \<and>
      (\<exists>t. (fst p = Published_create t \<or> fst p = Published_update t) \<and>
           getToast (snd (create now ttl ty options s)) (id_t t) = Some t)"
    using create_publications by blast
  show "\<forall>p \<in> set (publications_by s (snd (update i uo s))).
      snd p = (toasts (snd (update i uo s)), dismissedToasts (snd (update i uo s))) \<and>
      (\<exists>t. fst p = Published_update t \<and> getToast (snd (update i uo s)) (id_t t) = Some t)"
    using update_publications by blast
  show "publications_by s (dismiss now toastId s)
     = [(Published_dismiss toastId, (toasts (dismiss now toastId s), recorded now toastId s))]"
    by (rule dismiss_publications)
  show "\<forall>j. toastId = Some j \<longrightarrow>
      getToast (dismiss now toastId s) j = None \<and> map_of (recorded now toastId s) j = Some now"
    by (simp add: getToast_dismissed recorded_one)
  show "toastId = None \<longrightarrow>
      toasts (dismiss now toastId s) = [] \<and>
      (\<forall>t \<in> set (toasts s). map_of (recorded now toastId s) (id_t t) = Some now)"
    by (simp add: dismiss_toasts recorded_all)
  show "dismissedToasts (dismiss now toastId s)
     = dismissedToasts (cleanupDismissedCache (s\<lparr>dismissedToasts := recorded now toastId s\<rparr>))"
    by (rule dismiss_cache)
qed

theorem publication_follows_mutation_witness:
  "publications_by s_one (snd (create 2 (Some (Text ''Saved'')) Success (with_id (SId ''x'')) s_one))
     = [(Published_update (build (SId ''x'') Success (Some (Text ''Saved'')) (with_id (SId ''x'')) 2),
         ([build (SId ''x'') Success (Some (Text ''Saved'')) (with_id (SId ''x'')) 2], []))] \<and>
   getToast (snd (create 2 (Some (Text ''Saved'')) Success (with_id (SId ''x'')) s_one)) (SId ''x'')
     = Some (build (SId ''x'') Success (Some (Text ''Saved'')) (with_id (SId ''x'')) 2) \<and>
   publications_by s_one (snd (update (SId ''x'') stray s_one))
     = [(Published_update (merge (build (SId ''x'') Loading (Some (Text ''Saving'')) no_options 1) stray (SId ''x'')),
         ([merge (build (SId ''x'') Loading (Some (Text ''Saving'')) no_options 1) stray (SId ''x'')], []))] \<and>
   getToast (snd (update (SId ''x'') stray s_one)) (SId ''x'')
     = Some (merge (build (SId ''x'') Loading (Some (Text ''Saving'')) no_options 1) stray (SId ''x'')) \<and>
   publications_by s_one (dismiss 2 (Some (SId ''x'')) s_one)
     = [(Published_dismiss (Some (SId ''x'')), ([], [(SId ''x'', 2)]))] \<and>
   getToast (dismiss 2 (Some (SId ''x'')) s_one) (SId ''x'') = None \<and>
   dismissedToasts (dismiss 2 (Some (SId ''x'')) s_one) = [(SId ''x'', 2)] \<and>
   publications_by s_one (dismiss 2 None s_one) = [(Published_dismiss None, ([], [(SId ''x'', 2)]))] \<and>
   toasts (dismiss 2 None s_one) = []"
proof -
  let ?new = "build (SId ''x'') Success (Some (Text ''Saved'')) (with_id (SId ''x'')) 2"
  let ?old = "build (SId ''x'') Loading (Some (Text ''Saving'')) no_options 1"
  let ?c = "snd (create 2 (Some (Text ''Saved'')) Success (with_id (SId ''x'')) s_one)"
  let ?u = "snd (update (SId ''x'') stray s_one)"
  have c: "?c = \<lparr>toasts = [?new], dismissedToasts = [], toastCount = 0,
                 trace = [(Published_update ?new, ([?new], []))]\<rparr>"
    by (simp add: create_def resolveId_def with_id_def has_def s_one_def initial_def Let_def
          publishUpdate_def emit_def)
  have pc: "publications_by s_one ?c = [(Published_update ?new, ([?new], []))]"
    unfolding c by (simp add: publications_by_def emitted_by_def s_one_def initial_def)
  have g: "getToast s_one (SId ''x'') = Some ?old"
    by (simp add: getToast_def s_one_def initial_def)
  have u: "?u = \<lparr>toasts = [merge ?old stray (SId ''x'')], dismissedToasts = [], toastCount = 0,
                 trace = [(Published_update (merge ?old stray (SId ''x'')), ([merge ?old stray (SId ''x'')], []))]\<rparr>"
    unfolding update_present [OF g]
    by (simp add: publishUpdate_def emit_def s_one_def initial_def)
  have pu: "publications_by s_one ?u
      = [(Published_update (merge ?old stray (SId ''x'')), ([merge ?old stray (SId ''x'')], []))]"
    unfolding u by (simp add: publications_by_def emitted_by_def s_one_def initial_def)
  have r1: "recorded 2 (Some (SId ''x'')) s_one = [(SId ''x'', 2)]"
    by (simp add: recorded_def s_one_def initial_def)
  have r2: "recorded 2 None s_one = [(SId ''x'', 2)]"
    by (simp add: recorded_def s_one_def initial_def)
  have small: "cleanupDismissedCache (s_one\<lparr>dismissedToasts := [(SId ''x'', 2)]\<rparr>)
      = s_one\<lparr>dismissedToasts := [(SId ''x'', 2)]\<rparr>"
    by (simp add: cleanup_small DISMISSED_CACHE_MAX_SIZE_def)
  note m1 = publication_follows_mutation
              [where s = s_one and now = 2 and ttl = "Some (Text ''Saved'')" and ty = Success
                 and options = "with_id (SId ''x'')" and i = "SId ''x''" and uo = stray
                 and toastId = "Some (SId ''x'')"]
  note m2 = publication_follows_mutation
              [where s = s_one and now = 2 and ttl = "Some (Text ''Saved'')" and ty = Success
                 and options = "with_id (SId ''x'')" and i = "SId ''x''" and uo = stray
                 and toastId = None]
  from m1 pc have 1: "getToast ?c (SId ''x'') = Some ?new" by simp
  from m1 pu have 2: "getToast ?u (SId ''x'') = Some (merge ?old stray (SId ''x''))" by simp
  from m1 have 3: "publications_by s_one (dismiss 2 (Some (SId ''x'')) s_one)
      = [(Published_dismiss (Some (SId ''x'')), (toasts (dismiss 2 (Some (SId ''x'')) s_one), [(SId ''x'', 2)]))]"
    and 4: "getToast (dismiss 2 (Some (SId ''x'')) s_one) (SId ''x'') = None"
    and 5: "dismissedToasts (dismiss 2 (Some (SId ''x'')) s_one) = [(SId ''x'', 2)]"
    by (simp_all add: r1 small)
  from 4 have 6: "toasts (dismiss 2 (Some (SId ''x'')) s_one) = []"
    by (simp add: dismiss_toasts s_one_def initial_def)
  from m2 have 7: "toasts (dismiss 2 None s_one) = []"
    and 8: "publications_by s_one (dismiss 2 None s_one)
      = [(Published_dismiss None, (toasts (dismiss 2 None s_one), [(SId ''x'', 2)]))]"
    by (simp_all add: r2)
  from pc 1 pu 2 3 4 5 6 7 8 show ?thesis by simp
qed

text \<open>
  Counterexample to C7 as first stated, for the cache: dismissing a new identifier on a cache of 100
  entries publishes with 101 entries recorded, and the call returns with 51.
\<close>

theorem publication_before_cleanup_counterexample:
  "publications_by full_cache (dismiss 100 (Some (SId ''x'')) full_cache)
     = [(Published_dismiss (Some (SId ''x'')), ([], recorded 100 (Some (SId ''x'')) full_cache))] \<and>
   length (recorded 100 (Some (SId ''x'')) full_cache) = 101 \<and>
   length (dismissedToasts (dismiss 100 (Some (SId ''x'')) full_cache)) = 51"
  by code_simp

section \<open>The promise helper\<close>

lemma finally_block_fields [simp]:
  "toasts (snd (finally_block data (r, s))) = toasts s"
  "dismissedToasts (snd (finally_block data (r, s))) = dismissedToasts s"
  by (simp_all add: finally_block_def split: option.splits prod.splits)






lemma settle_options_merge [simp]:
  "coalesce (u_type (settle_options ty msg options)) old = ty"
  "coalesce_opt (u_title (settle_options ty msg options)) oldt
     = (case msg of None \<Rightarrow> oldt | Some c \<Rightarrow> Some c)"
  by (simp_all add: settle_options_def no_update_def coalesce_def coalesce_opt_def
        split: option.splits)






text \<open>
  The remaining ways out of the method. A \<^verbatim>\<open>finally\<close> callback that throws decides what
  the call throws, whatever happened before. The work function is called before the
  \<^verbatim>\<open>try\<close> block: when it throws, the method throws that at once, the registry stays as
  \<^verbatim>\<open>create\<close> left it, with the loading toast, and the \<^verbatim>\<open>finally\<close> callback is not called.
\<close>

lemma promise_settle_finally_throws:
  "p_finally data = Some (cb, Throws thrown) \<Longrightarrow>
   fst (promise_settle outcome i data options subscribers s) = Inl thrown"
  by (simp add: promise_settle_def finally_block_def)

lemma promise_function_throws:
  assumes "thrown_by subscribers s (snd (create now (p_loading data) Loading (loading_options options) s)) = None"
  shows "promise now (Function (Inl thrown)) data options subscribers during s
     = (Inl thrown, snd (create now (p_loading data) Loading (loading_options options) s))"
  using assms by (simp add: promise_def split_beta)

section \<open>The visible toasts\<close>

lemma findIndex_nth_distinct:
  assumes "distinct xs" "k < length xs"
  shows "findIndex (\<lambda>x. x = xs ! k) xs = int k"
  using assms
proof (induction xs arbitrary: k)
  case Nil
  then show ?case by simp
next
  case (Cons a xs)
  show ?case
  proof (cases k)
    case 0
    then show ?thesis by simp
  next
    case (Suc j)
    with Cons.prems have j: "j < length xs" and ne: "xs ! j \<noteq> a" by auto
    from Cons.IH [OF _ j] Cons.prems have "findIndex (\<lambda>x. x = xs ! j) xs = int j" by simp
    with Suc ne show ?thesis by (simp add: Let_def)
  qed
qed

lemma map_indexOf_distinct:
  assumes "distinct xs"
  shows "map (indexOf xs) xs = map int [0..<length xs]"
proof (rule nth_equalityI)
  show "length (map (indexOf xs) xs) = length (map int [0..<length xs])" by simp
next
  fix k assume "k < length (map (indexOf xs) xs)"
  then have k: "k < length xs" by simp
  with assms show "map (indexOf xs) xs ! k = map int [0..<length xs] ! k"
    by (simp add: indexOf_def findIndex_nth_distinct)
qed

lemma sorted_indexOf:
  assumes "distinct xs"
  shows "sorted (map (indexOf xs) xs)"
proof -
  have "sorted (map int [0..<n])" for n
    by (induction n) (auto simp: sorted_append)
  then show ?thesis by (simp add: map_indexOf_distinct [OF assms])
qed

lemma inj_on_indexOf:
  assumes "distinct xs"
  shows "inj_on (indexOf xs) (set xs)"
proof -
  have "distinct (map int [0..<length xs])" by (simp add: distinct_map)
  then have "distinct (map (indexOf xs) xs)" by (simp add: map_indexOf_distinct [OF assms])
  then show ?thesis by (simp add: distinct_map)
qed

lemma sort_by_index_is_filter:
  assumes dx: "distinct xs" and dy: "distinct ys" and sub: "set ys \<subseteq> set xs"
  shows "sort_key (indexOf xs) ys = filter (\<lambda>x. x \<in> set ys) xs"
proof -
  let ?f = "indexOf xs"
  let ?l = "sort_key ?f ys"
  let ?r = "filter (\<lambda>x. x \<in> set ys) xs"
  have inj: "inj_on ?f (set xs)" by (rule inj_on_indexOf [OF dx])
  have sets: "set ?l = set ?r" using sub by auto
  have s1: "sorted (map ?f ?l)" by simp
  have s2: "sorted (map ?f ?r)" by (rule sorted_filter [OF sorted_indexOf [OF dx]])
  have d1: "distinct (map ?f ?l)"
    using dy sub inj by (simp add: distinct_map inj_on_subset)
  have d2: "distinct (map ?f ?r)"
    using dx inj by (simp add: distinct_map) (rule inj_on_subset, auto)
  have "{x \<in> set xs. x \<in> set ys} = set ys" using sub by auto
  then have "set (map ?f ?l) = set (map ?f ?r)" by simp
  with s1 d1 s2 d2 have "map ?f ?l = map ?f ?r"
    by (rule sorted_distinct_set_unique)
  moreover have "inj_on ?f (set ?l \<union> set ?r)"
    using sub by (intro inj_on_subset [OF inj]) auto
  ultimately show ?thesis by (rule map_inj_on)
qed

lemma filter_in_take:
  assumes "distinct xs"
  shows "filter (\<lambda>x. x \<in> set (take m xs)) xs = take m xs"
proof -
  let ?P = "\<lambda>x. x \<in> set (take m xs)"
  from assms have "distinct (take m xs @ drop m xs)" by simp
  then have dis: "set (take m xs) \<inter> set (drop m xs) = {}" by (simp only: distinct_append)
  then have no: "\<forall>x \<in> set (drop m xs). \<not> ?P x" by blast
  have "filter ?P xs = filter ?P (take m xs @ drop m xs)" by simp
  also have "\<dots> = filter ?P (take m xs) @ filter ?P (drop m xs)" by (rule filter_append)
  also have "filter ?P (take m xs) = take m xs" by (rule filter_True) blast
  also from no have "filter ?P (drop m xs) = []" by (rule filter_False)
  finally show ?thesis by simp
qed

lemma combined_distinct:
  assumes d: "distinct sl"
  shows "distinct (filter P sl @ take m (filter (\<lambda>t. \<not> P t) sl))"
    and "set (filter P sl @ take m (filter (\<lambda>t. \<not> P t) sl)) \<subseteq> set sl"
proof -
  have sub: "set (take m (filter (\<lambda>t. \<not> P t) sl)) \<subseteq> set (filter (\<lambda>t. \<not> P t) sl)"
    by (rule set_take_subset)
  have "set (filter P sl) \<inter> set (filter (\<lambda>t. \<not> P t) sl) = {}" by auto
  with sub have dis: "set (filter P sl) \<inter> set (take m (filter (\<lambda>t. \<not> P t) sl)) = {}" by blast
  from d have "distinct (filter P sl)" "distinct (take m (filter (\<lambda>t. \<not> P t) sl))" by simp_all
  with dis show "distinct (filter P sl @ take m (filter (\<lambda>t. \<not> P t) sl))"
    by (simp only: distinct_append)
  have "set (filter (\<lambda>t. \<not> P t) sl) \<subseteq> set sl" "set (filter P sl) \<subseteq> set sl" by auto
  with sub show "set (filter P sl @ take m (filter (\<lambda>t. \<not> P t) sl)) \<subseteq> set sl"
    by (simp only: set_append) blast
qed

lemma visibleToastList_filter:
  assumes d: "distinct sl" and pos: "0 < n"
  shows "visibleToastList n sl
     = filter (\<lambda>t. t \<in> set (filter (\<lambda>t. truthy (important t)) sl @
                              take (nat (max 0 (n - int (length (filter (\<lambda>t. truthy (important t)) sl)))))
                                (filter (\<lambda>t. \<not> truthy (important t)) sl))) sl"
proof -
  let ?imp = "filter (\<lambda>t. truthy (important t)) sl"
  let ?reg = "filter (\<lambda>t. \<not> truthy (important t)) sl"
  let ?m = "nat (max 0 (n - int (length ?imp)))"
  let ?combined = "?imp @ take ?m ?reg"
  have dc: "distinct ?combined" by (rule combined_distinct(1) [OF d])
  have sub: "set ?combined \<subseteq> set sl" by (rule combined_distinct(2) [OF d])
  from pos have "visibleToastList n sl = sort_key (indexOf sl) ?combined"
    by (simp add: visibleToastList_def Let_def)
  also have "\<dots> = filter (\<lambda>x. x \<in> set ?combined) sl"
    by (rule sort_by_index_is_filter [OF d dc sub])
  finally show ?thesis .
qed


lemma distinct_filteredToasts: "distinct ts \<Longrightarrow> distinct (filteredToasts tId ts)"
  by (simp add: filteredToasts_def)

lemma distinct_sortedToasts: "distinct ts \<Longrightarrow> distinct (sortedToasts position ts)"
  by (simp add: sortedToasts_def Let_def)

lemma distinct_ids_distinct: "distinct (map id_t ts) \<Longrightarrow> distinct ts"
  by (rule distinct_map [THEN iffD1, THEN conjunct1])

lemma length_sortedToasts [simp]: "length (sortedToasts position ts) = length ts"
  by (simp add: sortedToasts_def Let_def)

lemma set_sortedToasts [simp]: "set (sortedToasts position ts) = set ts"
  by (simp add: sortedToasts_def Let_def)

lemma sorted_rev_neg:
  fixes f :: "'a \<Rightarrow> int"
  assumes "sorted (map (\<lambda>t. - f t) ys)"
  shows "sorted (map f (rev ys))"
proof -
  from assms have "sorted_wrt (\<lambda>x y. f y \<le> f x) ys" by (simp add: sorted_map)
  then have "sorted_wrt (\<lambda>x y. f x \<le> f y) (rev ys)" by (simp add: sorted_wrt_rev)
  then show ?thesis by (simp add: sorted_map)
qed

lemma sortedToasts_bottom_sorted:
  "startsWith_bottom position \<Longrightarrow> sorted (map createdAt (sortedToasts position ts))"
  by (simp add: sortedToasts_def Let_def sorted_rev_neg)

lemma sorted_take_le_rest:
  assumes s: "sorted (map f ys)" and t: "t \<in> set (take m ys)"
    and u: "u \<in> set ys" "u \<notin> set (take m ys)"
  shows "f t \<le> f u"
proof -
  have "set ys = set (take m ys) \<union> set (drop m ys)"
    by (simp only: set_append [symmetric] append_take_drop_id)
  with u have u': "u \<in> set (drop m ys)" by simp
  have "map f ys = map f (take m ys) @ map f (drop m ys)"
    by (simp only: map_append [symmetric] append_take_drop_id)
  with s have "sorted (map f (take m ys) @ map f (drop m ys))" by simp
  then have "\<forall>x \<in> set (map f (take m ys)). \<forall>y \<in> set (map f (drop m ys)). x \<le> y"
    by (simp only: sorted_append) simp
  with t u' show ?thesis by simp
qed

text \<open>
  C4. On a list of pairwise different toasts (as every list coming from the registry is),
  whatever the limit, and so in particular for a limit of at least the number \<open>k\<close> of
  important toasts: the important toasts of the output are exactly the important toasts
  of the sorted list, all \<open>k\<close> of them; the output is a subsequence of the sorted list,
  so every kept toast keeps its place relative to the others; and a limit that is not
  positive returns the sorted list itself.
\<close>

theorem capacity_keeps_important:
  assumes d: "distinct sorted_list"
  shows "filter (\<lambda>t. truthy (important t)) (visibleToastList n sorted_list)
           = filter (\<lambda>t. truthy (important t)) sorted_list \<and>
         (\<forall>t \<in> set sorted_list. truthy (important t) \<longrightarrow> t \<in> set (visibleToastList n sorted_list)) \<and>
         subseq (visibleToastList n sorted_list) sorted_list \<and>
         (n \<le> 0 \<longrightarrow> visibleToastList n sorted_list = sorted_list)"
proof (cases "n \<le> 0")
  case True
  then have "visibleToastList n sorted_list = sorted_list" by (simp add: visibleToastList_def)
  then show ?thesis by simp
next
  case False
  then have pos: "0 < n" by simp
  let ?P = "\<lambda>t. truthy (important t)"
  let ?imp = "filter ?P sorted_list"
  let ?reg = "filter (\<lambda>t. \<not> ?P t) sorted_list"
  let ?m = "nat (max 0 (n - int (length ?imp)))"
  let ?keep = "\<lambda>t. t \<in> set (?imp @ take ?m ?reg)"
  have v: "visibleToastList n sorted_list = filter ?keep sorted_list"
    by (rule visibleToastList_filter [OF d pos])
  have k: "?keep t" if "t \<in> set sorted_list" "?P t" for t
  proof -
    from that have "t \<in> set ?imp" by simp
    then show ?thesis by (simp only: set_append Un_iff) blast
  qed
  have "filter ?P (filter ?keep sorted_list) = filter (\<lambda>t. ?keep t \<and> ?P t) sorted_list"
    by (rule filter_filter)
  also have "\<dots> = ?imp"
    by (rule filter_cong [OF refl]) (use k in blast)
  finally have 1: "filter ?P (visibleToastList n sorted_list) = ?imp"
    by (simp only: v)
  have 2: "\<forall>t \<in> set sorted_list. ?P t \<longrightarrow> t \<in> set (visibleToastList n sorted_list)"
  proof (intro ballI impI)
    fix t assume t: "t \<in> set sorted_list" "?P t"
    with k have "?keep t" by blast
    with t(1) have "t \<in> set (filter ?keep sorted_list)" by (simp only: set_filter) blast
    then show "t \<in> set (visibleToastList n sorted_list)" by (simp only: v)
  qed
  have "subseq (filter ?keep sorted_list) sorted_list" by (rule subseq_filter_left)
  then have 3: "subseq (visibleToastList n sorted_list) sorted_list" by (simp only: v)
  from False have 4: "n \<le> 0 \<longrightarrow> visibleToastList n sorted_list = sorted_list" by blast
  from 1 2 3 4 show ?thesis by (intro conjI)
qed


theorem capacity_keeps_important_witness:
  "distinct six_newest_first \<and>
   map id_t six_newest_first = [NId 5, NId 4, NId 3, NId 2, NId 1, NId 0] \<and>
   map id_t (filter (\<lambda>t. truthy (important t)) six_newest_first) = [NId 4] \<and>
   map id_t (visibleToastList 2 six_newest_first) = [NId 5, NId 4] \<and>
   filter (\<lambda>t. truthy (important t)) (visibleToastList 2 six_newest_first)
     = filter (\<lambda>t. truthy (important t)) six_newest_first \<and>
   marked 4 \<in> set six_newest_first \<and> truthy (important (marked 4)) \<and>
   marked 4 \<in> set (visibleToastList 2 six_newest_first) \<and>
   subseq (visibleToastList 2 six_newest_first) six_newest_first \<and>
   (0::int) \<le> 0 \<and> visibleToastList 0 six_newest_first = six_newest_first"
proof -
  have d: "distinct six_newest_first" by code_simp
  have i: "map id_t six_newest_first = [NId 5, NId 4, NId 3, NId 2, NId 1, NId 0]" by code_simp
  have f: "map id_t (filter (\<lambda>t. truthy (important t)) six_newest_first) = [NId 4]" by code_simp
  have v: "map id_t (visibleToastList 2 six_newest_first) = [NId 5, NId 4]" by code_simp
  have m: "marked 4 \<in> set six_newest_first" by code_simp
  have t: "truthy (important (marked 4))" by code_simp
  note c2 = capacity_keeps_important [OF d, of 2]
  note c0 = capacity_keeps_important [OF d, of 0]
  from c2 m t have "marked 4 \<in> set (visibleToastList 2 six_newest_first)" by blast
  moreover from c0 have "visibleToastList 0 six_newest_first = six_newest_first" by simp
  ultimately show ?thesis using d i f v m t c2 by simp
qed

text \<open>
  C10. For a bottom position, a positive limit \<open>n\<close>, no important toast and more than
  \<open>n\<close> toasts for this Toaster, the visible toasts are the first \<open>n\<close> of the list in
  increasing \<open>createdAt\<close>: exactly \<open>n\<close> toasts, oldest first, none of them created
  later than any toast left out. Which toasts survive depends on the edge: of six toasts
  created at times 0 to 5, a bottom Toaster with limit 3 shows those of times 0, 1, 2 and
  a top Toaster those of times 5, 4, 3.
\<close>

theorem bottom_keeps_oldest:
  assumes d: "distinct (map id_t ts)"
    and bottom: "startsWith_bottom position"
    and pos: "0 < n"
    and none: "\<forall>t \<in> set (filteredToasts tId ts). \<not> truthy (important t)"
    and more: "int (length (filteredToasts tId ts)) > n"
  shows "visible tId position n ts
           = take (nat n) (rev (sort_key (\<lambda>t. - createdAt t) (filteredToasts tId ts))) \<and>
         int (length (visible tId position n ts)) = n \<and>
         set (visible tId position n ts) \<subseteq> set (filteredToasts tId ts) \<and>
         sorted (map createdAt (visible tId position n ts)) \<and>
         (\<forall>t \<in> set (visible tId position n ts).
            \<forall>u \<in> set (filteredToasts tId ts) - set (visible tId position n ts).
              createdAt t \<le> createdAt u) \<and>
         map id_t (visible None Bottom_center 3 (map numbered [0..<6])) = [NId 0, NId 1, NId 2] \<and>
         map id_t (visible None Top_center 3 (map numbered [0..<6])) = [NId 5, NId 4, NId 3]"
proof -
  let ?ft = "filteredToasts tId ts"
  let ?sl = "sortedToasts position ?ft"
  have dsl: "distinct ?sl"
    by (intro distinct_sortedToasts distinct_filteredToasts distinct_ids_distinct d)
  from none have none': "\<forall>t \<in> set ?sl. \<not> truthy (important t)" by simp
  then have imp: "filter (\<lambda>t. truthy (important t)) ?sl = []" by (rule filter_False)
  from none' have reg: "filter (\<lambda>t. \<not> truthy (important t)) ?sl = ?sl"
    by (intro filter_True) blast
  from pos have m: "nat (max 0 (n - int (length ([] :: ToastT list)))) = nat n" by simp
  have "visibleToastList n ?sl = filter (\<lambda>t. t \<in> set (take (nat n) ?sl)) ?sl"
    unfolding visibleToastList_filter [OF dsl pos] imp reg m by simp
  also have "\<dots> = take (nat n) ?sl" by (rule filter_in_take [OF dsl])
  finally have v: "visible tId position n ts = take (nat n) ?sl" by (simp add: visible_def)
  from bottom have sl: "?sl = rev (sort_key (\<lambda>t. - createdAt t) ?ft)"
    by (simp add: sortedToasts_def Let_def)
  have srt: "sorted (map createdAt ?sl)" by (rule sortedToasts_bottom_sorted [OF bottom])
  have 1: "visible tId position n ts = take (nat n) (rev (sort_key (\<lambda>t. - createdAt t) ?ft))"
    using v sl by simp
  from more pos have 2: "int (length (visible tId position n ts)) = n"
    by (simp add: v)
  have 3: "set (visible tId position n ts) \<subseteq> set ?ft"
    unfolding v using set_take_subset [of "nat n" ?sl] by simp
  from srt have "sorted (take (nat n) (map createdAt ?sl))" by (rule sorted_wrt_take)
  then have 4: "sorted (map createdAt (visible tId position n ts))"
    by (simp only: v take_map)
  have 5: "\<forall>t \<in> set (visible tId position n ts).
            \<forall>u \<in> set ?ft - set (visible tId position n ts). createdAt t \<le> createdAt u"
  proof (intro ballI)
    fix t u
    assume t: "t \<in> set (visible tId position n ts)"
      and u: "u \<in> set ?ft - set (visible tId position n ts)"
    from t have t': "t \<in> set (take (nat n) ?sl)" by (simp only: v)
    from u have u1: "u \<in> set ?sl" by simp
    from u have u2: "u \<notin> set (take (nat n) ?sl)" by (simp only: v) simp
    from srt t' u1 u2 show "createdAt t \<le> createdAt u" by (rule sorted_take_le_rest)
  qed
  have 6: "map id_t (visible None Bottom_center 3 (map numbered [0..<6])) = [NId 0, NId 1, NId 2]"
    by code_simp
  have 7: "map id_t (visible None Top_center 3 (map numbered [0..<6])) = [NId 5, NId 4, NId 3]"
    by code_simp
  from 1 2 3 4 5 6 7 show ?thesis by (intro conjI)
qed



theorem bottom_keeps_oldest_witness:
  "distinct (map id_t (map numbered [0..<6])) \<and> startsWith_bottom Bottom_center \<and> (0::int) < 3 \<and>
   list_all (\<lambda>t. \<not> truthy (important t)) (filteredToasts None (map numbered [0..<6])) \<and>
   int (length (filteredToasts None (map numbered [0..<6]))) > 3 \<and>
   map id_t (visible None Bottom_center 3 (map numbered [0..<6])) = [NId 0, NId 1, NId 2] \<and>
   map createdAt (visible None Bottom_center 3 (map numbered [0..<6])) = [0, 1, 2] \<and>
   visible None Bottom_center 3 (map numbered [0..<6])
     = take (nat 3) (rev (sort_key (\<lambda>t. - createdAt t) (filteredToasts None (map numbered [0..<6])))) \<and>
   sorted (map createdAt (visible None Bottom_center 3 (map numbered [0..<6])))"
proof -
  have d: "distinct (map id_t (map numbered [0..<6]))" by code_simp
  have b: "startsWith_bottom Bottom_center" by simp
  have p: "(0::int) < 3" by simp
  have l: "list_all (\<lambda>t. \<not> truthy (important t)) (filteredToasts None (map numbered [0..<6]))"
    by code_simp
  then have n: "\<forall>t \<in> set (filteredToasts None (map numbered [0..<6])). \<not> truthy (important t)"
    by (simp only: list_all_iff)
  have m: "int (length (filteredToasts None (map numbered [0..<6]))) > 3"
    by (simp add: filteredToasts_def)
  have c: "map createdAt (visible None Bottom_center 3 (map numbered [0..<6])) = [0, 1, 2]"
    by code_simp
  note r = bottom_keeps_oldest [OF d b p n m]
  from r have r1: "visible None Bottom_center 3 (map numbered [0..<6])
     = take (nat 3) (rev (sort_key (\<lambda>t. - createdAt t) (filteredToasts None (map numbered [0..<6]))))"
    by blast
  from r have r4: "sorted (map createdAt (visible None Bottom_center 3 (map numbered [0..<6])))"
    by blast
  from r have r6: "map id_t (visible None Bottom_center 3 (map numbered [0..<6])) = [NId 0, NId 1, NId 2]"
    by blast
  from d b p l m r6 c r1 r4 show ?thesis by blast
qed

section \<open>The registry invariant\<close>

text \<open>
  Every registry reached from the initial one by \<^verbatim>\<open>create\<close>, \<^verbatim>\<open>update\<close> and \<^verbatim>\<open>dismiss\<close>
  holds one active toast per identifier and one cache entry per key, so the lists a
  Toaster reads have pairwise different toasts.
\<close>

lemma map_id_list_update:
  assumes "k < length xs" "f y = f (xs ! k)"
  shows "map f (xs[k := y]) = map f xs"
  using assms by (simp add: map_update list_update_same_conv)

lemma distinct_fold_update:
  "distinct (map fst d) \<Longrightarrow> distinct (map fst (fold (\<lambda>t. AList.update (f t) v) ts d))"
  by (induction ts arbitrary: d) (simp_all add: distinct_update)

lemma distinct_fold_delete:
  "distinct (map fst d) \<Longrightarrow> distinct (map fst (fold (\<lambda>(k, _) d. AList.delete k d) rs d))"
  by (induction rs arbitrary: d) (auto simp: distinct_delete)

lemma wf_initial: "wf initial"
  by (simp add: wf_def initial_def)

lemma wf_create:
  assumes "wf s"
  shows "wf (snd (create now ttl ty options s))"
proof -
  let ?i = "fst (resolveId now options s)"
  let ?s = "snd (resolveId now options s)"
  let ?toast = "build ?i ty ttl options now"
  let ?k = "findIndex (\<lambda>t. id_t t = ?i) (toasts s)"
  have f: "toasts ?s = toasts s" "dismissedToasts ?s = dismissedToasts s"
    by (rule resolveId_fields)+
  have ge: "- 1 \<le> ?k" by (rule findIndex_ge)
  consider (gone) "has (dismissedToasts s) ?i"
    | (upd) "\<not> has (dismissedToasts s) ?i" "?k > - 1"
    | (new) "\<not> has (dismissedToasts s) ?i" "?k = - 1"
    using ge by linarith
  then show ?thesis
  proof cases
    case gone
    then have "snd (create now ttl ty options s) = ?s" by (simp add: create_cases Let_def)
    with assms f show ?thesis by (simp add: wf_def)
  next
    case upd
    then have ne: "?k \<noteq> - 1" by simp
    from findIndex_found [OF ne] have "nat ?k < length (toasts s)"
      "id_t ?toast = id_t (toasts s ! nat ?k)" by simp_all
    then have "map id_t ((toasts s)[nat ?k := ?toast]) = map id_t (toasts s)"
      by (rule map_id_list_update)
    moreover from upd have "snd (create now ttl ty options s)
        = publishUpdate ?toast (?s\<lparr>toasts := (toasts s)[nat ?k := ?toast]\<rparr>)"
      by (simp add: create_cases Let_def)
    ultimately show ?thesis using assms f by (simp add: wf_def publishUpdate_def)
  next
    case new
    then have "\<forall>t \<in> set (toasts s). id_t t \<noteq> ?i" by (simp add: findIndex_none)
    then have "?i \<notin> id_t ` set (toasts s)" by auto
    moreover from new have "snd (create now ttl ty options s)
        = publish ?toast (?s\<lparr>toasts := toasts s @ [?toast]\<rparr>)"
      by (simp add: create_cases Let_def)
    ultimately show ?thesis using assms f by (simp add: wf_def publish_def)
  qed
qed

lemma wf_update:
  assumes "wf s"
  shows "wf (snd (update i uo s))"
proof (cases "getToast s i")
  case None
  then have "\<not> isActive s i" by (simp add: isActive_getToast)
  from update_absent [OF this, of uo] assms show ?thesis by simp
next
  case (Some T)
  let ?k = "findIndex (\<lambda>t. id_t t = i) (toasts s)"
  from Some have ne: "?k \<noteq> - 1" by (simp add: getToast_findIndex split: if_splits)
  from findIndex_found [OF ne] have "nat ?k < length (toasts s)"
    "id_t (merge T uo i) = id_t (toasts s ! nat ?k)" by simp_all
  then have "map id_t ((toasts s)[nat ?k := merge T uo i]) = map id_t (toasts s)"
    by (rule map_id_list_update)
  with assms show ?thesis
    by (simp add: update_present [OF Some] wf_def publishUpdate_def)
qed

lemma wf_dismiss:
  assumes "wf s"
  shows "wf (dismiss now toastId s)"
proof -
  from assms have dt: "distinct (map id_t (toasts s))" and dc: "distinct (map fst (dismissedToasts s))"
    by (simp_all add: wf_def)
  from dt have 1: "distinct (map id_t (toasts (dismiss now toastId s)))"
    by (simp add: dismiss_toasts distinct_map_filter split: option.splits)
  from dc have r: "distinct (map fst (recorded now toastId s))"
    by (simp add: recorded_def distinct_update distinct_fold_update split: option.splits)
  then have "distinct (map fst (dismissedToasts (cleanupDismissedCache (s\<lparr>dismissedToasts := recorded now toastId s\<rparr>))))"
    by (simp add: cleanupDismissedCache_def Let_def distinct_fold_delete)
  then have 2: "distinct (map fst (dismissedToasts (dismiss now toastId s)))"
    by (simp only: dismiss_cache)
  from 1 2 show ?thesis by (simp add: wf_def)
qed

lemma wf_getToasts: "wf s \<Longrightarrow> distinct (getToasts s)"
  by (simp add: wf_def getToasts_def distinct_ids_distinct)

section \<open>The size of the dismissed-id cache\<close>

text \<open>
  The cleanup removes exactly \<open>DISMISSED_CACHE_CLEANUP_THRESHOLD\<close> entries from a cache
  of more than \<open>DISMISSED_CACHE_MAX_SIZE\<close> entries, whatever its size. Dismissing one
  identifier adds at most one entry, so that path keeps a cache within the maximal size
  once it is within it; dismissing all active toasts adds one entry per toast before the
  one cleanup.
\<close>

lemma length_delete_present:
  assumes "distinct (map fst d)" "k \<in> fst ` set d"
  shows "Suc (length (AList.delete k d)) = length d"
  using assms
proof (induction d)
  case Nil
  then show ?case by simp
next
  case (Cons a d)
  show ?case
  proof (cases "fst a = k")
    case True
    with Cons.prems have "k \<notin> fst ` set d" by auto
    then have "AList.delete k d = d" by simp
    with True show ?thesis by (cases a) simp
  next
    case False
    with Cons show ?thesis by (cases a) auto
  qed
qed

lemma length_fold_delete:
  assumes "distinct (map fst d)" "distinct (map fst rs)" "set rs \<subseteq> set d"
  shows "length (fold (\<lambda>(k, _) d. AList.delete k d) rs d) + length rs = length d"
  using assms
proof (induction rs arbitrary: d)
  case Nil
  then show ?case by simp
next
  case (Cons r rs)
  obtain k t where r: "r = (k, t)" by (cases r)
  from Cons.prems r have kin: "k \<in> fst ` set d" by force
  from Cons.prems have d': "distinct (map fst (AList.delete k d))" by (simp add: distinct_delete)
  from Cons.prems r have "\<forall>p \<in> set rs. fst p \<noteq> k" by auto
  with Cons.prems have sub: "set rs \<subseteq> set (AList.delete k d)"
    by (auto simp: AList.delete_eq)
  from Cons.prems have "distinct (map fst rs)" by simp
  from Cons.IH [OF d' this sub]
  have "length (fold (\<lambda>(k, _) d. AList.delete k d) rs (AList.delete k d)) + length rs
      = length (AList.delete k d)" .
  with length_delete_present [OF Cons.prems(1) kin] r show ?case by simp
qed

lemma cleanup_length:
  assumes dk: "distinct (map fst (dismissedToasts s))"
  shows "length (dismissedToasts (cleanupDismissedCache s))
     = (if length (dismissedToasts s) \<le> DISMISSED_CACHE_MAX_SIZE then length (dismissedToasts s)
        else length (dismissedToasts s) - DISMISSED_CACHE_CLEANUP_THRESHOLD)"
proof (cases "length (dismissedToasts s) \<le> DISMISSED_CACHE_MAX_SIZE")
  case True
  then show ?thesis by (simp add: cleanupDismissedCache_def)
next
  case False
  let ?d = "dismissedToasts s"
  let ?rs = "take DISMISSED_CACHE_CLEANUP_THRESHOLD (sort_key snd ?d)"
  from dk have "distinct ?d" "inj_on fst (set ?d)" by (simp_all add: distinct_map)
  then have "distinct (map fst (sort_key snd ?d))" by (simp add: distinct_map)
  then have "distinct (take DISMISSED_CACHE_CLEANUP_THRESHOLD (map fst (sort_key snd ?d)))"
    by (rule distinct_take)
  then have drs: "distinct (map fst ?rs)" by (simp only: take_map)
  have "set ?rs \<subseteq> set (sort_key snd ?d)" by (rule set_take_subset)
  then have sub: "set ?rs \<subseteq> set ?d" by simp
  from False have "length ?rs = DISMISSED_CACHE_CLEANUP_THRESHOLD"
    by (simp add: DISMISSED_CACHE_MAX_SIZE_def DISMISSED_CACHE_CLEANUP_THRESHOLD_def)
  with length_fold_delete [OF dk drs sub]
  have "length (fold (\<lambda>(k, _) d. AList.delete k d) ?rs ?d)
      = length ?d - DISMISSED_CACHE_CLEANUP_THRESHOLD" by simp
  with False show ?thesis by (simp add: cleanupDismissedCache_def Let_def)
qed

lemma length_update_le: "length (AList.update k v d) \<le> Suc (length d)"
  by (induction d) auto

lemma dismiss_one_bounded:
  assumes dk: "distinct (map fst (dismissedToasts s))"
    and le: "length (dismissedToasts s) \<le> DISMISSED_CACHE_MAX_SIZE"
  shows "length (dismissedToasts (dismiss now (Some i) s)) \<le> DISMISSED_CACHE_MAX_SIZE"
proof -
  let ?d = "AList.update i now (dismissedToasts s)"
  from dk have "distinct (map fst ?d)" by (rule distinct_update)
  then have "length (dismissedToasts (cleanupDismissedCache (s\<lparr>dismissedToasts := ?d\<rparr>)))
     = (if length ?d \<le> DISMISSED_CACHE_MAX_SIZE then length ?d
        else length ?d - DISMISSED_CACHE_CLEANUP_THRESHOLD)"
    using cleanup_length [of "s\<lparr>dismissedToasts := ?d\<rparr>"] by simp
  moreover have "length ?d \<le> Suc (length (dismissedToasts s))" by (rule length_update_le)
  ultimately have "length (dismissedToasts (cleanupDismissedCache (s\<lparr>dismissedToasts := ?d\<rparr>)))
      \<le> DISMISSED_CACHE_MAX_SIZE"
    using le unfolding DISMISSED_CACHE_MAX_SIZE_def DISMISSED_CACHE_CLEANUP_THRESHOLD_def
    by (simp split: if_splits)
  then show ?thesis by (simp add: dismiss_cache recorded_def)
qed

lemma dismiss_all_size:
  assumes dk: "distinct (map fst (dismissedToasts s))"
  shows "length (dismissedToasts (dismiss now None s))
     = (if length (recorded now None s) \<le> DISMISSED_CACHE_MAX_SIZE then length (recorded now None s)
        else length (recorded now None s) - DISMISSED_CACHE_CLEANUP_THRESHOLD)"
proof -
  from dk have "distinct (map fst (recorded now None s))"
    by (simp add: recorded_def distinct_fold_update)
  then show ?thesis
    using cleanup_length [of "s\<lparr>dismissedToasts := recorded now None s\<rparr>"]
    by (simp add: dismiss_cache)
qed

text \<open>
  C8. The cache does not stay within its maximal size: after \<^verbatim>\<open>dismiss()\<close> of 151 active
  toasts on an empty cache, 101 entries remain, more than \<open>DISMISSED_CACHE_MAX_SIZE\<close>.
\<close>

theorem cache_exceeds_max_size:
  "length (toasts (crowd 151)) = 151 \<and> dismissedToasts (crowd 151) = [] \<and>
   length (dismissedToasts (dismiss 1000 None (crowd 151))) = 101 \<and>
   DISMISSED_CACHE_MAX_SIZE = 100"
  by code_simp

end
